theory Spec2Isabelle
  imports Main "HOL-Library.Word" "HOL-Library.Monad_Syntax" "HOL-Library.Signed_Division"
begin

unbundle bit_operations_syntax

section \<open>C data: integers, arrays, caller memory\<close>

text \<open>
  The C types of \<^verbatim>\<open>hamming.c\<close>: \<^verbatim>\<open>int\<close> is a 32-bit two's complement word
  (\<open>+\<close>, \<open>-\<close> and \<open>*\<close> wrap, comparisons are signed), \<^verbatim>\<open>size_t\<close> a 64-bit unsigned word,
  \<^verbatim>\<open>unsigned char\<close> an 8-bit word. A bit is stored in an \<^verbatim>\<open>int\<close>.
\<close>

type_synonym cint = "32 word"
type_synonym size_t = "64 word"
type_synonym uchar = "8 word"

text \<open>
  An array object is a list. An access outside the object is undefined behaviour in C;
  the model makes it the result \<open>None\<close>, so every function that indexes an array returns
  an option.
\<close>

definition rd :: "'a list \<Rightarrow> int \<Rightarrow> 'a option" where
  "rd xs i = (if 0 \<le> i \<and> i < int (length xs) then Some (xs ! nat i) else None)"

definition wr :: "'a list \<Rightarrow> int \<Rightarrow> 'a \<Rightarrow> 'a list option" where
  "wr xs i v = (if 0 \<le> i \<and> i < int (length xs) then Some (xs[nat i := v]) else None)"

text \<open>
  The buffers the caller passes to the API functions live in a heap of array objects; an
  \<^verbatim>\<open>int *\<close> argument is the name of the object it points to (its first element). Two
  pointer arguments may name the same object; the local arrays of a function are not in
  the heap and alias nothing.
\<close>

type_synonym heap = "nat \<Rightarrow> cint list"

definition heap_rd :: "heap \<Rightarrow> nat \<Rightarrow> int \<Rightarrow> cint option" where
  "heap_rd h p i = rd (h p) i"

definition heap_wr :: "heap \<Rightarrow> nat \<Rightarrow> int \<Rightarrow> cint \<Rightarrow> heap option" where
  "heap_wr h p i v = do { xs \<leftarrow> wr (h p) i v; Some (h(p := xs)) }"

text \<open>\<^verbatim>\<open>a / b\<close> on \<^verbatim>\<open>int\<close>: the quotient truncated towards zero.\<close>

definition cdiv :: "cint \<Rightarrow> cint \<Rightarrow> cint" where
  "cdiv a b = word_of_int (sint a sdiv sint b)"

text \<open>
  \<^verbatim>\<open>x << p\<close> on \<^verbatim>\<open>int\<close>. C defines the shift only for a non-negative \<open>x\<close>, a count
  \<open>p\<close> in \<open>0..31\<close> and a result \<open>x * 2 ^ p\<close> that fits the \<^verbatim>\<open>int\<close>; every other shift is
  undefined behaviour and, like an access outside an array, the result \<open>None\<close>. So
  \<^verbatim>\<open>1 << p\<close> has a value exactly for \<open>p\<close> in \<open>0..30\<close>.
\<close>

definition shl :: "cint \<Rightarrow> cint \<Rightarrow> cint option" where
  "shl x p =
     (if 0 \<le>s x \<and> 0 \<le>s p \<and> p <s 32 \<and> sint x * 2 ^ nat (sint p) < 2 ^ 31
      then Some (push_bit (nat (sint p)) x)
      else None)"

section \<open>Iteration\<close>

text \<open>
  \<^verbatim>\<open>for (int i = a; i < n; i++) body\<close>, the loop state threaded through the body; the
  loop stops at the first undefined access.
\<close>

function for_int :: "cint \<Rightarrow> cint \<Rightarrow> (cint \<Rightarrow> 's \<Rightarrow> 's option) \<Rightarrow> 's \<Rightarrow> 's option" where
  "for_int i n body s =
     (if i <s n then do { s' \<leftarrow> body i s; for_int (i + 1) n body s' } else Some s)"
  by pat_completeness auto
termination
proof (relation "measure (\<lambda>(i, n, body, s). nat (sint n - sint i))")
  fix i n :: cint
  assume "i <s n"
  then have lt: "sint i < sint n" by (simp add: word_sless_alt)
  have "sint n < 2 ^ 31" using sint_lt [of n] by simp
  moreover have "- (2 ^ 31) \<le> sint i" using sint_ge [of i] by simp
  ultimately have "- (2 ^ 31) \<le> sint i + 1" "sint i + 1 < 2 ^ 31" using lt by linarith+
  then have "signed_take_bit 31 (sint i + 1) = sint i + 1"
    by (simp add: signed_take_bit_int_eq_self)
  then have "sint (i + 1) = sint i + 1" by (simp add: sint_word_ariths)
  with lt show "((i + 1, n, body, s'), (i, n, body, s)) \<in> measure (\<lambda>(i, n, body, s). nat (sint n - sint i))"
    for body :: "cint \<Rightarrow> 's \<Rightarrow> 's option" and s s' :: 's
    by simp
qed simp

declare for_int.simps [simp del]

text \<open>\<^verbatim>\<open>for (size_t i = a; i < n; i++) body\<close>.\<close>

function for_size :: "size_t \<Rightarrow> size_t \<Rightarrow> (size_t \<Rightarrow> 's \<Rightarrow> 's option) \<Rightarrow> 's \<Rightarrow> 's option" where
  "for_size i n body s =
     (if i < n then do { s' \<leftarrow> body i s; for_size (i + 1) n body s' } else Some s)"
  by pat_completeness auto
termination
proof (relation "measure (\<lambda>(i, n, body, s). unat n - unat i)")
  fix i n :: size_t
  assume "i < n"
  then have lt: "unat i < unat n" by (simp add: word_less_nat_alt)
  have "unat n < 2 ^ 64" using unsigned_less [of n, where 'a = nat] by simp
  with lt have "unat i + 1 < 2 ^ 64" by linarith
  then have "unat (i + 1) = unat i + 1" by (simp add: unat_word_ariths)
  with lt show "((i + 1, n, body, s'), (i, n, body, s)) \<in> measure (\<lambda>(i, n, body, s). unat n - unat i)"
    for body :: "size_t \<Rightarrow> 's \<Rightarrow> 's option" and s s' :: 's
    by simp
qed simp

declare for_size.simps [simp del]

section \<open>Helper functions of \<^verbatim>\<open>hamming.c\<close>\<close>

text \<open>
  \<^verbatim>\<open>static int parity_check(int n, int *data, int p)\<close>: the loop starts at
  \<^verbatim>\<open>mask - 1\<close> and XORs \<^verbatim>\<open>data[i]\<close> into \<^verbatim>\<open>sum\<close> whenever
  \<^verbatim>\<open>((i + 1) & mask) != 0\<close>.
\<close>

definition parity_check :: "cint \<Rightarrow> cint list \<Rightarrow> cint \<Rightarrow> cint option" where
  "parity_check n data p = do {
     mask \<leftarrow> shl 1 p;
     for_int (mask - 1) n
       (\<lambda>i sum. if (i + 1) AND mask \<noteq> 0
                 then do { v \<leftarrow> rd data (sint i); Some (sum XOR v) }
                 else Some sum)
       0
   }"

text \<open>
  \<^verbatim>\<open>static int calculate_syndrome(int n, int *encoded_data)\<close>: the \<^verbatim>\<open>while\<close> statement
  with its \<^verbatim>\<open>break\<close>. The condition and the body each evaluate \<^verbatim>\<open>1 << p\<close>; the next
  round is reached only where that shift has a value, so \<open>p\<close> stays below 31.
\<close>

function syndrome_loop :: "cint \<Rightarrow> cint list \<Rightarrow> cint \<Rightarrow> cint \<Rightarrow> cint option" where
  "syndrome_loop n encoded_data syndrome p = do {
     bound \<leftarrow> shl 1 p;
     if bound \<le>s n then do {
       pos \<leftarrow> shl 1 p;
       let parity_pos = pos - 1;
       if n \<le>s parity_pos then Some syndrome
       else do {
         check \<leftarrow> parity_check n encoded_data p;
         shifted \<leftarrow> shl check p;
         syndrome_loop n encoded_data (syndrome OR shifted) (p + 1)
       }
     } else Some syndrome
   }"
  by pat_completeness auto
termination
proof (relation "measure (\<lambda>(n, encoded_data, syndrome, p). nat (31 - sint p))")
  fix p bound :: cint
  assume "shl 1 p = Some bound"
  then have nn: "0 \<le> sint p" and pw: "(2 :: int) ^ nat (sint p) < 2 ^ 31"
    by (simp_all add: shl_def word_sle_eq split: if_splits)
  have "nat (sint p) < 31"
    by (rule power_less_imp_less_exp [of "2 :: int"]) (use pw in simp_all)
  with nn have le: "sint p \<le> 30" by linarith
  then have "- (2 ^ 31) \<le> sint p + 1" "sint p + 1 < 2 ^ 31" using nn by simp_all
  then have "signed_take_bit 31 (sint p + 1) = sint p + 1"
    by (simp add: signed_take_bit_int_eq_self)
  then have "sint (p + 1) = sint p + 1" by (simp add: sint_word_ariths)
  with le show "((n, e, s', p + 1), (n, e, s, p))
      \<in> measure (\<lambda>(n, encoded_data, syndrome, p). nat (31 - sint p))"
    for n :: cint and e :: "cint list" and s s' :: cint
    by simp
qed simp

declare syndrome_loop.simps [simp del]

definition calculate_syndrome :: "cint \<Rightarrow> cint list \<Rightarrow> cint option" where
  "calculate_syndrome n encoded_data = syndrome_loop n encoded_data 0 0"

text \<open>
  \<^verbatim>\<open>static void hamming_encode_nibble(const int data[4], int encoded_data[7])\<close>: the
  result is the content of \<^verbatim>\<open>encoded_data\<close> after the call. The three \<^verbatim>\<open>for\<close> statements are the
  zero-fill, the placement of the data bits (with \<^verbatim>\<open>continue\<close> on the parity
  positions) and the parity bits.
\<close>

definition hamming_encode_nibble :: "cint list \<Rightarrow> cint list \<Rightarrow> cint list option" where
  "hamming_encode_nibble data encoded_data =
     (let n = 7; r = 3 in do {
        zeroed \<leftarrow> for_int 0 n (\<lambda>i e. wr e (sint i) 0) encoded_data;
        (placed, j) \<leftarrow>
          for_int 0 n
            (\<lambda>i (e, j). if i AND (i + 1) = 0 then Some (e, j)
                        else do {
                          v \<leftarrow> rd data (sint j);
                          e' \<leftarrow> wr e (sint i) v;
                          Some (e', j + 1)
                        })
            (zeroed, 0 :: cint);
        for_int 0 r
          (\<lambda>p e. do {
             pos \<leftarrow> shl 1 p;
             let parity_pos = pos - 1;
             c \<leftarrow> parity_check n e p;
             wr e (sint parity_pos) c
           })
          placed
      })"

text \<open>
  \<^verbatim>\<open>static void hamming_decode_nibble(int encoded_data[7], int decoded_data[4])\<close>: the
  result is the pair of both arrays after the call, since the correction flips a bit of
  \<^verbatim>\<open>encoded_data\<close> in place.
\<close>

definition hamming_decode_nibble :: "cint list \<Rightarrow> cint list \<Rightarrow> (cint list \<times> cint list) option" where
  "hamming_decode_nibble encoded_data decoded_data = do {
     syndrome \<leftarrow> calculate_syndrome 7 encoded_data;
     corrected \<leftarrow>
       (if syndrome \<noteq> 0 then
          (let error_pos = syndrome - 1 in
           if error_pos <s 7 then do {
             v \<leftarrow> rd encoded_data (sint error_pos);
             wr encoded_data (sint error_pos) (v XOR 1)
           } else Some encoded_data)
        else Some encoded_data);
     v2 \<leftarrow> rd corrected 2;
     d0 \<leftarrow> wr decoded_data 0 v2;
     v4 \<leftarrow> rd corrected 4;
     d1 \<leftarrow> wr d0 1 v4;
     v5 \<leftarrow> rd corrected 5;
     d2 \<leftarrow> wr d1 2 v5;
     v6 \<leftarrow> rd corrected 6;
     d3 \<leftarrow> wr d2 3 v6;
     Some (corrected, d3)
   }"

section \<open>API functions\<close>

text \<open>
  The local arrays \<^verbatim>\<open>int block[4]\<close> and \<^verbatim>\<open>int encoded[7]\<close> are declared without an
  initialiser. The model starts them at zero; each is written in full before it is read.
\<close>

text \<open>
  \<^verbatim>\<open>void hamming_encode_generic(const void *data, size_t data_size, int *out_bits)\<close>:
  \<open>data\<close> is the byte object behind the \<^verbatim>\<open>const void *\<close>. The \<^verbatim>\<open>unsigned char\<close>
  operands are promoted to \<^verbatim>\<open>int\<close>; the index \<^verbatim>\<open>i * 7 + j\<close> is computed in
  \<^verbatim>\<open>size_t\<close>.
\<close>

definition hamming_encode_generic :: "heap \<Rightarrow> uchar list \<Rightarrow> size_t \<Rightarrow> nat \<Rightarrow> heap option" where
  "hamming_encode_generic h data data_size out_bits =
     (let bytes = data; nibble_count = data_size * 2 in
      for_size 0 nibble_count
        (\<lambda>i h. do {
           byte \<leftarrow> rd bytes (uint (i div 2));
           let nibble = (if i mod 2 = 0
                         then (ucast (drop_bit 4 (ucast byte :: cint)) :: uchar)
                         else ucast ((ucast byte :: cint) AND 0x0F));
           b0 \<leftarrow> wr (replicate 4 0) 0 (drop_bit 3 (ucast nibble :: cint) AND 1);
           b1 \<leftarrow> wr b0 1 (drop_bit 2 (ucast nibble :: cint) AND 1);
           b2 \<leftarrow> wr b1 2 (drop_bit 1 (ucast nibble :: cint) AND 1);
           block \<leftarrow> wr b2 3 ((ucast nibble :: cint) AND 1);
           encoded \<leftarrow> hamming_encode_nibble block (replicate 7 0);
           for_int 0 7
             (\<lambda>j h. do {
                v \<leftarrow> rd encoded (sint j);
                heap_wr h out_bits (uint (i * 7 + scast j)) v
              })
             h
         })
        h)"

text \<open>
  \<^verbatim>\<open>void hamming_encode_74(const int *input_bits, int total_bits, int *out_bits)\<close>: the
  loop advances by 4. A recursive call is reached only after \<^verbatim>\<open>input_bits[i]\<close> was read
  inside the object, so \<open>i\<close> is not negative there; once \<open>i + 4\<close> has wrapped, the next
  read is outside the object.
\<close>

function encode_74_loop :: "nat \<Rightarrow> cint \<Rightarrow> nat \<Rightarrow> cint \<Rightarrow> heap \<Rightarrow> heap option" where
  "encode_74_loop input_bits total_bits out_bits i h =
     (if i <s total_bits then do {
        b0 \<leftarrow> heap_rd h input_bits (sint i);
        b1 \<leftarrow> heap_rd h input_bits (sint (i + 1));
        b2 \<leftarrow> heap_rd h input_bits (sint (i + 2));
        b3 \<leftarrow> heap_rd h input_bits (sint (i + 3));
        let block = [b0, b1, b2, b3];
        encoded \<leftarrow> hamming_encode_nibble block (replicate 7 0);
        h' \<leftarrow> for_int 0 7
               (\<lambda>j h. do {
                  v \<leftarrow> rd encoded (sint j);
                  heap_wr h out_bits (sint (cdiv i 4 * 7 + j)) v
                })
               h;
        encode_74_loop input_bits total_bits out_bits (i + 4) h'
      } else Some h)"
  by pat_completeness auto
termination
proof (relation "measure (\<lambda>(input_bits, total_bits, out_bits, i, h).
                    if sint i < 0 then 0 else nat (2 ^ 31 - sint i))")
  fix input_bits :: nat and i :: cint and h :: heap and b0 :: cint
  assume "heap_rd h input_bits (sint i) = Some b0"
  then have nonneg: "0 \<le> sint i" by (simp add: heap_rd_def rd_def split: if_splits)
  have up: "sint i < 2 ^ 31" using sint_lt [of i] by simp
  have "sint (i + 4) = signed_take_bit 31 (sint i + 4)" by (simp add: sint_word_ariths)
  also have "\<dots> = (if sint i + 4 < 2 ^ 31 then sint i + 4 else sint i + 4 - 2 ^ 32)"
  proof (cases "sint i + 4 < 2 ^ 31")
    case True
    then show ?thesis using nonneg by (simp add: signed_take_bit_int_eq_self)
  next
    case False
    have "take_bit 32 (sint i + 4) = take_bit 32 (sint i + 4 - 2 ^ 32)"
      unfolding take_bit_eq_mod by (simp only: minus_mod_self2)
    then have "signed_take_bit 31 (sint i + 4) = signed_take_bit 31 (sint i + 4 - 2 ^ 32)"
      by (simp add: signed_take_bit_eq_iff_take_bit_eq)
    also have "\<dots> = sint i + 4 - 2 ^ 32"
      using False up by (simp add: signed_take_bit_int_eq_self)
    finally show ?thesis using False by simp
  qed
  finally have "sint (i + 4) = (if sint i + 4 < 2 ^ 31 then sint i + 4 else sint i + 4 - 2 ^ 32)" .
  then show "((input_bits, total_bits, out_bits, i + 4, h'), (input_bits, total_bits, out_bits, i, h))
      \<in> measure (\<lambda>(input_bits, total_bits, out_bits, i, h).
                    if sint i < 0 then 0 else nat (2 ^ 31 - sint i))"
    for total_bits :: cint and out_bits :: nat and h' :: heap
    using nonneg up by (simp split: if_splits)
qed simp

declare encode_74_loop.simps [simp del]

definition hamming_encode_74 :: "heap \<Rightarrow> nat \<Rightarrow> cint \<Rightarrow> nat \<Rightarrow> heap option" where
  "hamming_encode_74 h input_bits total_bits out_bits =
     encode_74_loop input_bits total_bits out_bits 0 h"

text \<open>
  \<^verbatim>\<open>void hamming_decode_74(const int *in_bits, int total_bits, int *decoded_bits)\<close>: the
  loop bound is \<^verbatim>\<open>total_bits / 4\<close>. Each group is copied into the local
  \<^verbatim>\<open>encoded\<close>, which the nibble decoder then corrects in place.
\<close>

definition hamming_decode_74 :: "heap \<Rightarrow> nat \<Rightarrow> cint \<Rightarrow> nat \<Rightarrow> heap option" where
  "hamming_decode_74 h in_bits total_bits decoded_bits =
     for_int 0 (cdiv total_bits 4)
       (\<lambda>i h. do {
          encoded \<leftarrow> for_int 0 7
                       (\<lambda>j encoded. do {
                          v \<leftarrow> heap_rd h in_bits (sint (i * 7 + j));
                          wr encoded (sint j) v
                        })
                       (replicate 7 0);
          (encoded', block) \<leftarrow> hamming_decode_nibble encoded (replicate 4 0);
          v0 \<leftarrow> rd block 0;
          h0 \<leftarrow> heap_wr h decoded_bits (sint (i * 4 + 0)) v0;
          v1 \<leftarrow> rd block 1;
          h1 \<leftarrow> heap_wr h0 decoded_bits (sint (i * 4 + 1)) v1;
          v2 \<leftarrow> rd block 2;
          h2 \<leftarrow> heap_wr h1 decoded_bits (sint (i * 4 + 2)) v2;
          v3 \<leftarrow> rd block 3;
          heap_wr h2 decoded_bits (sint (i * 4 + 3)) v3
        })
       h"

section \<open>The parity group as the specification words it\<close>

text \<open>
  The contract of the parity calculator: the XOR of every element at a 0-based index \<open>i\<close>
  in \<open>[2 ^ P - 1, length data - 1]\<close> with \<open>(i + 1) AND 2 ^ P \<noteq> 0\<close>. Indices and the mask
  are natural numbers here, so \<open>2 ^ P\<close> is the power itself for every \<open>P\<close>.
\<close>

definition spec_parity :: "cint list \<Rightarrow> nat \<Rightarrow> cint" where
  "spec_parity data P =
     foldl (XOR) 0 [data ! i. i \<leftarrow> [2 ^ P - 1 ..< length data], (i + 1) AND 2 ^ P \<noteq> 0]"

section \<open>The framing of the byte-stream adapter as the specification words it\<close>

text \<open>
  Nibble \<open>2k\<close> of a byte buffer is the high half of byte \<open>k\<close>, nibble \<open>2k + 1\<close> its low half;
  the four bits of a nibble are taken most significant bit first, each as 0 or 1.
\<close>

definition spec_nibble :: "uchar list \<Rightarrow> nat \<Rightarrow> uchar" where
  "spec_nibble data m =
     (if even m then drop_bit 4 (data ! (m div 2)) else data ! (m div 2) AND 0x0F)"

definition spec_nibble_bits :: "uchar \<Rightarrow> cint list" where
  "spec_nibble_bits nib = map (\<lambda>k. if bit nib k then 1 else 0) [3, 2, 1, 0]"

section \<open>Words and iteration\<close>

lemma sint_of_nat_small: "m < 2 ^ 31 \<Longrightarrow> sint (of_nat m :: cint) = int m"
  by (simp add: signed_of_nat signed_take_bit_int_eq_self)

lemma of_nat_sint: "0 \<le> sint w \<Longrightarrow> (of_nat (nat (sint w)) :: cint) = w"
  by simp

lemma unat_sint: "0 \<le> sint w \<Longrightarrow> unat w = nat (sint w)" for w :: cint
proof -
  assume nn: "0 \<le> sint w"
  have "uint w = take_bit 32 (sint w)" using uint_sint [of w] by simp
  also have "\<dots> = sint w" using nn sint_lt [of w] by (simp add: take_bit_int_eq_self)
  finally show ?thesis by (simp only: unat_eq_nat_uint)
qed

lemma sint_succ: "i <s n \<Longrightarrow> sint (i + 1) = sint i + 1" for i n :: cint
proof -
  assume "i <s n"
  then have lt: "sint i < sint n" by (simp add: word_sless_alt)
  have "sint n < 2 ^ 31" using sint_lt [of n] by simp
  moreover have "- (2 ^ 31) \<le> sint i" using sint_ge [of i] by simp
  ultimately have "- (2 ^ 31) \<le> sint i + 1" "sint i + 1 < 2 ^ 31" using lt by linarith+
  then have "signed_take_bit 31 (sint i + 1) = sint i + 1"
    by (simp add: signed_take_bit_int_eq_self)
  then show ?thesis by (simp add: sint_word_ariths)
qed

lemma for_int_step: "i <s n \<Longrightarrow> for_int i n body s = body i s \<bind> for_int (i + 1) n body"
  by (subst for_int.simps) simp

lemma for_int_stop: "\<not> i <s n \<Longrightarrow> for_int i n body s = Some s"
  by (subst for_int.simps) simp

lemma for_int_invariant:
  assumes "for_int i n body s = Some s'" and "P s"
    and "\<And>j t t'. P t \<Longrightarrow> body j t = Some t' \<Longrightarrow> P t'"
  shows "P s'"
  using assms(1,2)
proof (induction "nat (sint n - sint i)" arbitrary: i s)
  case 0
  then have "\<not> i <s n" by (simp add: word_sless_alt)
  with 0 show ?case by (simp add: for_int_stop)
next
  case (Suc k)
  then have lt: "i <s n" by (simp add: word_sless_alt)
  from Suc(2) have k: "k = nat (sint n - sint (i + 1))" using sint_succ [OF lt] by simp
  from Suc(3) lt obtain t where t: "body i s = Some t" "for_int (i + 1) n body t = Some s'"
    by (auto simp: for_int_step split: bind_splits)
  from assms(3) [OF Suc(4) t(1)] have "P t" .
  from Suc(1) [OF k t(2) this] show ?case .
qed

lemma for_int_none:
  assumes inv: "\<And>j t t'. P t \<Longrightarrow> body j t = Some t' \<Longrightarrow> P t'"
    and fail: "\<And>t. P t \<Longrightarrow> body j t = None"
    and "P s" and "sint i \<le> sint j" and "j <s n"
  shows "for_int i n body s = None"
  using assms(3,4)
proof (induction "nat (sint j - sint i)" arbitrary: i s)
  case 0
  then have "sint i = sint j" by simp
  then have "i = j" by (rule signed_word_eqI)
  then show ?case using assms(5) fail [OF 0(2)] by (simp add: for_int_step)
next
  case (Suc k)
  then have lt': "sint i < sint j" by simp
  from assms(5) have "sint j < sint n" by (simp add: word_sless_alt)
  with lt' have lt: "i <s n" by (simp add: word_sless_alt)
  have s1: "sint (i + 1) = sint i + 1" by (rule sint_succ [OF lt])
  have k: "k = nat (sint j - sint (i + 1))" using Suc(2) s1 by simp
  have le: "sint (i + 1) \<le> sint j" using lt' s1 by simp
  show ?case
  proof (cases "body i s")
    case None
    then show ?thesis by (simp add: for_int_step [OF lt])
  next
    case (Some t)
    from inv [OF Suc(3) Some] have "P t" .
    from Suc(1) [OF k this le] Some show ?thesis by (simp add: for_int_step [OF lt])
  qed
qed

lemma unat_times7:
  fixes i :: size_t
  assumes "7 * unat i + k < 2 ^ 64"
  shows "uint (i * 7 + of_nat k) = int (7 * unat i + k)"
proof -
  have "unat (i * 7 + of_nat k) = (unat i * 7 + k) mod 2 ^ 64"
    by (simp add: unat_word_ariths unat_of_nat mod_simps)
  also have "\<dots> = 7 * unat i + k" using assms by (simp only: mult.commute [of _ 7] mod_less)
  finally have "int (unat (i * 7 + of_nat k)) = int (7 * unat i + k)" by (simp only:)
  then show ?thesis by (simp only: uint_nat)
qed

lemma unat_twice:
  fixes n :: size_t
  assumes "2 * unat n < 2 ^ 64"
  shows "unat (n * 2) = 2 * unat n"
  using assms by (simp add: unat_word_ariths mult.commute)

lemma for_size_step: "i < n \<Longrightarrow> for_size i n body s = body i s \<bind> for_size (i + 1) n body"
  by (subst for_size.simps) simp

lemma for_size_stop: "\<not> i < n \<Longrightarrow> for_size i n body s = Some s"
  by (subst for_size.simps) simp

lemma unat_succ: "i < n \<Longrightarrow> unat (i + 1) = unat i + 1" for i n :: size_t
proof -
  assume "i < n"
  then have "unat i < unat n" by (simp add: word_less_nat_alt)
  moreover have "unat n < 2 ^ 64" using unsigned_less [of n, where 'a = nat] by simp
  ultimately have "unat i + 1 < 2 ^ 64" by linarith
  then show ?thesis by (simp add: unat_word_ariths)
qed

section \<open>The helper functions on arrays of the sizes the program uses\<close>

lemmas unroll = for_int.simps rd_def wr_def shl_def word_sless_alt word_sle_eq Let_def

lemma length7D: "length xs = 7 \<Longrightarrow> \<exists>a b c d e f g. xs = [a, b, c, d, e, f, g]"
  by (auto simp: length_Suc_conv eval_nat_numeral)

lemma length4D: "length xs = 4 \<Longrightarrow> \<exists>a b c d. xs = [a, b, c, d]"
  by (auto simp: length_Suc_conv eval_nat_numeral)

lemma less7D: "i < 7 \<Longrightarrow> i = 0 \<or> i = 1 \<or> i = 2 \<or> i = 3 \<or> i = 4 \<or> i = 5 \<or> i = (6::nat)"
  by arith

text \<open>The three parity groups of a 7-element array, in the order the loop visits them.\<close>

lemma parity_check_7_0:
  "parity_check 7 [e0, e1, e2, e3, e4, e5, e6] 0 = Some (((e0 XOR e2) XOR e4) XOR e6)"
  by (simp add: parity_check_def unroll)

lemma parity_check_7_1:
  "parity_check 7 [e0, e1, e2, e3, e4, e5, e6] 1 = Some (((e1 XOR e2) XOR e5) XOR e6)"
  by (simp add: parity_check_def unroll)

lemma parity_check_7_2:
  "parity_check 7 [e0, e1, e2, e3, e4, e5, e6] 2 = Some (((e3 XOR e4) XOR e5) XOR e6)"
  by (simp add: parity_check_def unroll)

lemmas parity_check_7 = parity_check_7_0 parity_check_7_1 parity_check_7_2

lemma shl_1: "shl 1 0 = Some 1" "shl 1 1 = Some 2" "shl 1 2 = Some 4" "shl 1 3 = Some 8"
  by (simp_all add: shl_def word_sle_eq word_sless_alt)

text \<open>
  The syndrome loop runs for \<open>p = 0, 1, 2\<close> and leaves at \<open>p = 3\<close>, where \<open>8 > 7\<close>. Each
  parity result is shifted into its place; on elements outside \<open>{0, 1}\<close> a shift may be
  undefined.
\<close>

lemma calculate_syndrome_7:
  "calculate_syndrome 7 [e0, e1, e2, e3, e4, e5, e6] = do {
     s0 \<leftarrow> shl (((e0 XOR e2) XOR e4) XOR e6) 0;
     s1 \<leftarrow> shl (((e1 XOR e2) XOR e5) XOR e6) 1;
     s2 \<leftarrow> shl (((e3 XOR e4) XOR e5) XOR e6) 2;
     Some ((s0 OR s1) OR s2)
   }"
  by (simp add: calculate_syndrome_def syndrome_loop.simps parity_check_7 shl_1 word_sle_eq)

lemmas shl_eval = shl_def word_sle_eq word_sless_alt

text \<open>
  The encoder overwrites all seven elements: the result does not depend on what
  \<^verbatim>\<open>encoded_data\<close> held before the call.
\<close>

lemma hamming_encode_nibble_4:
  "hamming_encode_nibble [d0, d1, d2, d3] [b0, b1, b2, b3, b4, b5, b6] =
     Some [(d0 XOR d1) XOR d3, (d0 XOR d2) XOR d3, d0, (d1 XOR d2) XOR d3, d1, d2, d3]"
  by (simp add: hamming_encode_nibble_def parity_check_7 unroll)

lemma cdiv_7_4: "cdiv 7 4 = 1" "cdiv 14 4 = 3" "cdiv 4 4 = 1" "cdiv 8 4 = 2" "cdiv 0 4 = 0"
  by (simp_all add: cdiv_def signed_divide_int_def)

lemma replicate_7: "replicate 7 x = [x, x, x, x, x, x, x]"
  by (simp add: numeral_eq_Suc)

lemma replicate_4: "replicate 4 x = [x, x, x, x]"
  by (simp add: numeral_eq_Suc)

lemmas unroll_heap = unroll heap_rd_def heap_wr_def hamming_decode_nibble_def calculate_syndrome_7
  replicate_7 replicate_4

section \<open>Parity calculator\<close>

lemma and_pow_word_nat:
  fixes w :: cint
  assumes "P < 31" "0 \<le> sint w"
  shows "(w AND 2 ^ P \<noteq> 0) = (nat (sint w) AND 2 ^ P \<noteq> 0)"
proof -
  have "w = of_nat (nat (sint w))" using assms(2) by simp
  then have "bit w P = bit (of_nat (nat (sint w)) :: cint) P" by simp
  also have "\<dots> = bit (nat (sint w)) P" using assms(1) by (simp add: bit_of_nat_iff)
  finally show ?thesis by (simp add: and_exp_eq_0_iff_not_bit)
qed

lemma parity_loop:
  assumes "P < 31" "0 \<le> sint i" "length data = nat (sint n)"
  shows "for_int i n
           (\<lambda>i sum. if (i + 1) AND 2 ^ P \<noteq> 0
                     then do { v \<leftarrow> rd data (sint i); Some (sum XOR v) }
                     else Some sum) acc
         = Some (foldl (XOR) acc
              [data ! k. k \<leftarrow> [nat (sint i) ..< nat (sint n)], (k + 1) AND 2 ^ P \<noteq> 0])"
  using assms(2)
proof (induction "nat (sint n - sint i)" arbitrary: i acc)
  case 0
  then have "\<not> i <s n" "nat (sint n) \<le> nat (sint i)" by (simp_all add: word_sless_alt)
  then show ?case by (simp add: for_int_stop)
next
  case (Suc k)
  then have lt: "i <s n" by (simp add: word_sless_alt)
  then have lt': "sint i < sint n" by (simp add: word_sless_alt)
  have s1: "sint (i + 1) = sint i + 1" by (rule sint_succ [OF lt])
  have k: "k = nat (sint n - sint (i + 1))" using Suc(2) s1 by simp
  have nn: "0 \<le> sint (i + 1)" using s1 Suc(3) by simp
  have IH: "\<And>acc. for_int (i + 1) n
           (\<lambda>i sum. if (i + 1) AND 2 ^ P \<noteq> 0
                     then do { v \<leftarrow> rd data (sint i); Some (sum XOR v) }
                     else Some sum) acc
         = Some (foldl (XOR) acc
              [data ! k. k \<leftarrow> [nat (sint (i + 1)) ..< nat (sint n)], (k + 1) AND 2 ^ P \<noteq> 0])"
    using Suc(1) [OF k nn] .
  have idx: "nat (sint (i + 1)) = Suc (nat (sint i))" using s1 Suc(3) by simp
  have upt: "[nat (sint i) ..< nat (sint n)] = nat (sint i) # [Suc (nat (sint i)) ..< nat (sint n)]"
    using lt' Suc(3) by (simp add: upt_conv_Cons)
  have cond: "((i + 1) AND 2 ^ P \<noteq> 0) = ((nat (sint i) + 1) AND 2 ^ P \<noteq> 0)"
    using and_pow_word_nat [OF assms(1) nn] idx by simp
  have rdok: "rd data (sint i) = Some (data ! nat (sint i))"
    using lt' Suc(3) assms(3) by (simp add: rd_def)
  show ?case
    by (simp add: for_int_step [OF lt] IH idx upt cond rdok del: upt_Suc)
qed

lemma pow_minus_one: "P < 31 \<Longrightarrow> sint ((2::cint) ^ P - 1) = 2 ^ P - 1"
proof -
  assume P: "P < 31"
  have "(2::nat) ^ P < 2 ^ 31" using P by (rule power_strict_increasing) simp
  then have lt: "(2::nat) ^ P - 1 < 2 ^ 31" by linarith
  have "(2::cint) ^ P - 1 = of_nat (2 ^ P - 1)" by (simp add: of_nat_diff)
  then have "sint ((2::cint) ^ P - 1) = int (2 ^ P - 1)" using sint_of_nat_small [OF lt] by simp
  then show ?thesis by (simp add: of_nat_diff)
qed

lemma spec_parity_empty: "length data \<le> 2 ^ P - 1 \<Longrightarrow> spec_parity data P = 0"
  by (simp add: spec_parity_def)

text \<open>
  Claim C6, as stated, fails for \<open>p \<ge> 31\<close>: \<^verbatim>\<open>int mask = 1 << p\<close> has no value there
  (\<open>2 ^ p\<close> does not fit the \<^verbatim>\<open>int\<close>, and from \<open>p = 32\<close> on the shift count reaches the width
  of the type), so the call is undefined and \<^verbatim>\<open>parity_check\<close> is not total over every
  \<open>p \<ge> 0\<close>. On the array \<open>[1, 0, 0, 0, 0, 0, 0]\<close> of length 7 the claim promises 0, the
  parity of an empty group, for \<open>p = 31\<close> and \<open>p = 32\<close>.
\<close>

theorem parity_check_shift_undefined:
  "(0 :: cint) \<le>s 7 \<and> (0 :: cint) \<le>s 31 \<and> (0 :: cint) \<le>s 32 \<and>
   length [1, 0, 0, 0, 0, 0, 0 :: cint] = nat (sint (7 :: cint)) \<and>
   spec_parity [1, 0, 0, 0, 0, 0, 0] (unat (31 :: cint)) = 0 \<and>
   spec_parity [1, 0, 0, 0, 0, 0, 0] (unat (32 :: cint)) = 0 \<and>
   parity_check 7 [1, 0, 0, 0, 0, 0, 0] 31 = None \<and>
   parity_check 7 [1, 0, 0, 0, 0, 0, 0] 32 = None"
  by (simp add: parity_check_def shl_eval spec_parity_empty)

text \<open>
  Claim C6, amended. For every array of length \<open>n \<ge> 0\<close> and every \<open>p\<close> with
  \<open>0 \<le> p \<le> 30\<close> (the range in which \<^verbatim>\<open>1 << p\<close> is \<open>2 ^ p\<close>), \<^verbatim>\<open>parity_check\<close> returns,
  without an access outside the array, the XOR of the elements at the indices \<open>i\<close> in
  \<open>[2 ^ p - 1, n - 1]\<close> with \<open>(i + 1) AND 2 ^ p \<noteq> 0\<close>, and 0 when \<open>2 ^ p - 1 \<ge> n\<close>.
\<close>

theorem parity_check_group:
  assumes "0 \<le>s n" and "0 \<le>s p" and "p \<le>s 30" and "length data = nat (sint n)"
  shows "parity_check n data p = Some (spec_parity data (unat p)) \<and>
         (length data \<le> 2 ^ unat p - 1 \<longrightarrow> parity_check n data p = Some 0)"
proof -
  have pn: "0 \<le> sint p" using assms(2) by (simp add: word_sle_eq)
  have p30: "sint p \<le> 30" using assms(3) by (simp add: word_sle_eq)
  have up: "unat p = nat (sint p)" by (rule unat_sint [OF pn])
  have P: "unat p < 31" using pn p30 up by linarith
  have "(2 :: int) ^ unat p < 2 ^ 31" using P by (rule power_strict_increasing) simp
  then have m: "shl 1 p = Some (2 ^ unat p)"
    using pn p30 by (simp add: shl_def word_sle_eq word_sless_alt push_bit_of_1 up)
  have s: "sint ((2::cint) ^ unat p - 1) = 2 ^ unat p - 1" by (rule pow_minus_one [OF P])
  then have nn0: "0 \<le> sint ((2::cint) ^ unat p - 1)" by simp
  have st: "nat (sint ((2::cint) ^ unat p - 1)) = 2 ^ unat p - 1"
    using s by (simp add: nat_diff_distrib nat_power_eq)
  have "parity_check n data p = Some (spec_parity data (unat p))"
    unfolding parity_check_def m spec_parity_def
    using parity_loop [OF P nn0 assms(4), of 0] by (simp add: st assms(4))
  then show ?thesis by (simp add: spec_parity_empty)
qed

theorem parity_check_group_witness:
  "(0 :: cint) \<le>s 7 \<and> (0 :: cint) \<le>s 2 \<and> (2 :: cint) \<le>s 30 \<and>
   (0 :: cint) \<le>s 3 \<and> (3 :: cint) \<le>s 30 \<and>
   length [0, 1, 1, 0, 1, 1, 1 :: cint] = nat (sint (7 :: cint)) \<and>
   parity_check 7 [0, 1, 1, 0, 1, 1, 1] 2
     = Some (spec_parity [0, 1, 1, 0, 1, 1, 1] (unat (2 :: cint))) \<and>
   spec_parity [0, 1, 1, 0, 1, 1, 1] (unat (2 :: cint)) = 1 \<and>
   length [0, 1, 1, 0, 1, 1, 1 :: cint] \<le> 2 ^ unat (3 :: cint) - 1 \<and>
   parity_check 7 [0, 1, 1, 0, 1, 1, 1] 3 = Some 0"
proof -
  have hyps: "(0 :: cint) \<le>s 7" "(0 :: cint) \<le>s 2" "(2 :: cint) \<le>s 30"
    "(0 :: cint) \<le>s 3" "(3 :: cint) \<le>s 30"
    "length [0, 1, 1, 0, 1, 1, 1 :: cint] = nat (sint (7 :: cint))"
    by (simp_all add: word_sle_eq)
  have empty: "length [0, 1, 1, 0, 1, 1, 1 :: cint] \<le> 2 ^ unat (3 :: cint) - 1" by simp
  from parity_check_group [OF hyps(1,2,3,6)]
  have two: "parity_check 7 [0, 1, 1, 0, 1, 1, 1] 2
     = Some (spec_parity [0, 1, 1, 0, 1, 1, 1] (unat (2 :: cint)))"
    by blast
  then have one: "spec_parity [0, 1, 1, 0, 1, 1, 1] (unat (2 :: cint)) = 1"
    by (simp add: parity_check_7_2)
  from parity_check_group [OF hyps(1,4,5,6)] empty
  have three: "parity_check 7 [0, 1, 1, 0, 1, 1, 1] 3 = Some 0"
    by blast
  from hyps empty two one three show ?thesis by (simp only: simp_thms)
qed

section \<open>Nibble encoder and decoder\<close>

text \<open>
  Claim C2. For each of the 16 nibbles with bits in \<open>{0, 1}\<close>, the nibble encoder returns a
  codeword, and the nibble decoder applied to that codeword returns the nibble (and leaves
  the codeword as it was). The buffers \<open>encoded\<close> and \<open>decoded\<close> are the arrays of 7 and 4
  elements the callee writes to, with any initial content.
\<close>

theorem decode_encode_nibble:
  assumes "length nibble = 4" and "set nibble \<subseteq> {0, 1}"
    and "length encoded = 7" and "length decoded = 4"
  shows "\<exists>codeword. hamming_encode_nibble nibble encoded = Some codeword \<and>
           hamming_decode_nibble codeword decoded = Some (codeword, nibble)"
proof -
  obtain d0 d1 d2 d3 where n: "nibble = [d0, d1, d2, d3]"
    using length4D [OF assms(1)] by blast
  obtain b0 b1 b2 b3 b4 b5 b6 where e: "encoded = [b0, b1, b2, b3, b4, b5, b6]"
    using length7D [OF assms(3)] by blast
  obtain o0 o1 o2 o3 where d: "decoded = [o0, o1, o2, o3]"
    using length4D [OF assms(4)] by blast
  from assms(2) n have bits: "d0 = 0 \<or> d0 = 1" "d1 = 0 \<or> d1 = 1" "d2 = 0 \<or> d2 = 1" "d3 = 0 \<or> d3 = 1"
    by auto
  show ?thesis
    unfolding n e d hamming_encode_nibble_4 using bits
    by (auto simp: hamming_decode_nibble_def calculate_syndrome_7 rd_def wr_def shl_eval)
qed

theorem decode_encode_nibble_witness:
  "length [1, 0, 1, 1 :: cint] = 4 \<and> set [1, 0, 1, 1 :: cint] \<subseteq> {0, 1} \<and>
   length (replicate 7 (0 :: cint)) = 7 \<and> length (replicate 4 (0 :: cint)) = 4 \<and>
   hamming_encode_nibble [1, 0, 1, 1] (replicate 7 0) = Some [0, 1, 1, 0, 0, 1, 1] \<and>
   hamming_decode_nibble [0, 1, 1, 0, 0, 1, 1] (replicate 4 0)
     = Some ([0, 1, 1, 0, 0, 1, 1], [1, 0, 1, 1])"
  using decode_encode_nibble [of "[1, 0, 1, 1]" "replicate 7 0" "replicate 4 0"]
  by (simp add: replicate_7 hamming_encode_nibble_4)

text \<open>
  Claim C3. For each of the 16 nibbles with bits in \<open>{0, 1}\<close> and each position \<open>i\<close> in
  \<open>0..6\<close>, decoding the encoder's codeword with the bit at index \<open>i\<close> flipped returns the
  original nibble; the decoder's in-place correction restores the codeword.
\<close>

theorem single_bit_flip_corrected:
  assumes "length nibble = 4" and "set nibble \<subseteq> {0, 1}"
    and "length encoded = 7" and "length decoded = 4" and "i < 7"
  shows "\<exists>codeword. hamming_encode_nibble nibble encoded = Some codeword \<and>
           hamming_decode_nibble (codeword[i := codeword ! i XOR 1]) decoded
             = Some (codeword, nibble)"
proof -
  obtain d0 d1 d2 d3 where n: "nibble = [d0, d1, d2, d3]"
    using length4D [OF assms(1)] by blast
  obtain b0 b1 b2 b3 b4 b5 b6 where e: "encoded = [b0, b1, b2, b3, b4, b5, b6]"
    using length7D [OF assms(3)] by blast
  obtain o0 o1 o2 o3 where d: "decoded = [o0, o1, o2, o3]"
    using length4D [OF assms(4)] by blast
  from assms(2) n have bits: "d0 = 0 \<or> d0 = 1" "d1 = 0 \<or> d1 = 1" "d2 = 0 \<or> d2 = 1" "d3 = 0 \<or> d3 = 1"
    by auto
  show ?thesis
    unfolding n e d hamming_encode_nibble_4 using bits less7D [OF assms(5)]
    by (auto simp: hamming_decode_nibble_def calculate_syndrome_7 rd_def wr_def shl_eval)
qed

theorem single_bit_flip_corrected_witness:
  "length [1, 0, 1, 1 :: cint] = 4 \<and> set [1, 0, 1, 1 :: cint] \<subseteq> {0, 1} \<and>
   length (replicate 7 (0 :: cint)) = 7 \<and> length (replicate 4 (0 :: cint)) = 4 \<and> (4 :: nat) < 7 \<and>
   hamming_encode_nibble [1, 0, 1, 1] (replicate 7 0) = Some [0, 1, 1, 0, 0, 1, 1] \<and>
   [0, 1, 1, 0, 0, 1, 1 :: cint][4 := [0, 1, 1, 0, 0, 1, 1] ! 4 XOR 1] = [0, 1, 1, 0, 1, 1, 1] \<and>
   hamming_decode_nibble [0, 1, 1, 0, 1, 1, 1] (replicate 4 0)
     = Some ([0, 1, 1, 0, 0, 1, 1], [1, 0, 1, 1])"
  using single_bit_flip_corrected [of "[1, 0, 1, 1]" "replicate 7 0" "replicate 4 0" 4]
  by (simp add: replicate_7 hamming_encode_nibble_4)

text \<open>
  Claim C4. For each nibble with bits in \<open>{0, 1}\<close>, the syndrome of the encoder's codeword
  is 0, and the syndrome of that codeword with the one bit at index \<open>i\<close> (in \<open>0..6\<close>) flipped
  is \<open>i + 1\<close>.
\<close>

theorem syndrome_zero_and_position:
  assumes "length nibble = 4" and "set nibble \<subseteq> {0, 1}" and "length encoded = 7"
  shows "\<exists>codeword. hamming_encode_nibble nibble encoded = Some codeword \<and>
           calculate_syndrome 7 codeword = Some 0 \<and>
           (\<forall>i<7. calculate_syndrome 7 (codeword[i := codeword ! i XOR 1]) = Some (of_nat i + 1))"
proof -
  obtain d0 d1 d2 d3 where n: "nibble = [d0, d1, d2, d3]"
    using length4D [OF assms(1)] by blast
  obtain b0 b1 b2 b3 b4 b5 b6 where e: "encoded = [b0, b1, b2, b3, b4, b5, b6]"
    using length7D [OF assms(3)] by blast
  from assms(2) n have bits: "d0 = 0 \<or> d0 = 1" "d1 = 0 \<or> d1 = 1" "d2 = 0 \<or> d2 = 1" "d3 = 0 \<or> d3 = 1"
    by auto
  show ?thesis
    unfolding n e hamming_encode_nibble_4 using bits
    by (auto simp: calculate_syndrome_7 shl_eval dest!: less7D)
qed

theorem syndrome_zero_and_position_witness:
  "length [1, 0, 1, 1 :: cint] = 4 \<and> set [1, 0, 1, 1 :: cint] \<subseteq> {0, 1} \<and>
   length (replicate 7 (0 :: cint)) = 7 \<and>
   hamming_encode_nibble [1, 0, 1, 1] (replicate 7 0) = Some [0, 1, 1, 0, 0, 1, 1] \<and>
   calculate_syndrome 7 [0, 1, 1, 0, 0, 1, 1] = Some 0 \<and>
   (4 :: nat) < 7 \<and>
   [0, 1, 1, 0, 0, 1, 1 :: cint][4 := [0, 1, 1, 0, 0, 1, 1] ! 4 XOR 1] = [0, 1, 1, 0, 1, 1, 1] \<and>
   calculate_syndrome 7 [0, 1, 1, 0, 1, 1, 1] = Some 5"
proof -
  have hyps: "length [1, 0, 1, 1 :: cint] = 4" "set [1, 0, 1, 1 :: cint] \<subseteq> {0, 1}"
    "length (replicate 7 (0 :: cint)) = 7"
    by simp_all
  have enc: "hamming_encode_nibble [1, 0, 1, 1] (replicate 7 0) = Some [0, 1, 1, 0, 0, 1, 1]"
    by (simp add: replicate_7 hamming_encode_nibble_4)
  from syndrome_zero_and_position [OF hyps] obtain codeword where
    cw: "hamming_encode_nibble [1, 0, 1, 1] (replicate 7 0) = Some codeword"
    and zero: "calculate_syndrome 7 codeword = Some 0"
    and pos: "\<forall>i<7. calculate_syndrome 7 (codeword[i := codeword ! i XOR 1]) = Some (of_nat i + 1)"
    by blast
  from cw enc have c: "codeword = [0, 1, 1, 0, 0, 1, 1]" by simp
  have four: "(4 :: nat) < 7" by simp
  from pos four have "calculate_syndrome 7 (codeword[4 := codeword ! 4 XOR 1]) = Some (of_nat 4 + 1)"
    by blast
  then have five: "calculate_syndrome 7 [0, 1, 1, 0, 1, 1, 1] = Some 5"
    by (simp add: c)
  from zero have "calculate_syndrome 7 [0, 1, 1, 0, 0, 1, 1] = Some 0" by (simp only: c)
  with hyps enc five show ?thesis by simp
qed

text \<open>
  Claim C5, as stated, fails at syndrome 7: the guard is \<^verbatim>\<open>error_pos < 7\<close> with
  \<^verbatim>\<open>error_pos = syndrome - 1\<close>, so a syndrome of 7 is corrected at index 6. The input
  \<open>[0, 0, 0, 0, 0, 0, 1]\<close> has syndrome 7, which is non-zero and \<open>\<ge> 7\<close>; the decoder
  flips index 6 and returns \<open>[0, 0, 0, 0]\<close>, not the bits \<open>[0, 0, 0, 1]\<close> found at indices
  2, 4, 5, 6 of the input.
\<close>

theorem syndrome_seven_is_corrected:
  "calculate_syndrome 7 [0, 0, 0, 0, 0, 0, 1] = Some 7 \<and> (7 :: cint) \<noteq> 0 \<and> (7 :: cint) \<le>s 7 \<and>
   hamming_decode_nibble [0, 0, 0, 0, 0, 0, 1] [0, 0, 0, 0]
     = Some ([0, 0, 0, 0, 0, 0, 0], [0, 0, 0, 0]) \<and>
   [[0, 0, 0, 0, 0, 0, 1 :: cint] ! 2, [0, 0, 0, 0, 0, 0, 1] ! 4,
    [0, 0, 0, 0, 0, 0, 1] ! 5, [0, 0, 0, 0, 0, 0, 1] ! 6] = [0, 0, 0, 1]"
  by (simp add: hamming_decode_nibble_def calculate_syndrome_7 rd_def wr_def shl_eval)

text \<open>
  Claim C5, amended. For every 7-element input whose syndrome is at least 8 (as a signed
  \<^verbatim>\<open>int\<close>), no bit is flipped and the decoder returns the elements at indices 2, 4, 5, 6
  of the input. Such a syndrome needs elements outside \<open>{0, 1}\<close>.
\<close>

theorem syndrome_above_seven_not_corrected:
  assumes "length encoded_data = 7" and "length decoded_data = 4"
    and "calculate_syndrome 7 encoded_data = Some syndrome" and "8 \<le>s syndrome"
  shows "hamming_decode_nibble encoded_data decoded_data =
           Some (encoded_data,
                 [encoded_data ! 2, encoded_data ! 4, encoded_data ! 5, encoded_data ! 6])"
proof -
  have s8: "8 \<le> sint syndrome" using assms(4) by (simp add: word_sle_eq)
  then have nz: "syndrome \<noteq> 0" by auto
  have "sint (syndrome - 1) = signed_take_bit 31 (sint syndrome - 1)"
    by (simp add: sint_word_ariths)
  also have "\<dots> = sint syndrome - 1"
    using s8 sint_lt [of syndrome] by (simp add: signed_take_bit_int_eq_self)
  finally have "\<not> syndrome - 1 <s 7" using s8 by (simp add: word_sless_alt)
  with nz show ?thesis
    using assms(1,2,3)
    by (auto dest!: length7D length4D simp: hamming_decode_nibble_def rd_def wr_def)
qed

theorem syndrome_above_seven_not_corrected_witness:
  "length [8, 0, 0, 0, 0, 0, 0 :: cint] = 7 \<and> length [0, 0, 0, 0 :: cint] = 4 \<and>
   calculate_syndrome 7 [8, 0, 0, 0, 0, 0, 0] = Some 8 \<and> (8 :: cint) \<le>s 8 \<and>
   hamming_decode_nibble [8, 0, 0, 0, 0, 0, 0] [0, 0, 0, 0]
     = Some ([8, 0, 0, 0, 0, 0, 0], [0, 0, 0, 0])"
proof -
  have syn: "calculate_syndrome 7 [8, 0, 0, 0, 0, 0, 0] = Some 8"
    by (simp add: calculate_syndrome_7 shl_eval)
  have le: "(8 :: cint) \<le>s 8" by simp
  show ?thesis
    using syn le syndrome_above_seven_not_corrected [OF _ _ syn le, of "[0, 0, 0, 0]"]
    by simp
qed

text \<open>
  Claim C7. Encoding the nibble \<open>[1, 0, 1, 1]\<close> gives the codeword
  \<open>[0, 1, 1, 0, 0, 1, 1]\<close>: parity bits at indices 0, 1, 3 and data bits at 2, 4, 5, 6.
\<close>

theorem encode_1011: "hamming_encode_nibble [1, 0, 1, 1] [b0, b1, b2, b3, b4, b5, b6] = Some [0, 1, 1, 0, 0, 1, 1]"
  by (simp add: hamming_encode_nibble_4)

section \<open>Byte-stream adapter\<close>

lemma bit_extract: "k < 8 \<Longrightarrow> drop_bit k (ucast (nib :: uchar) :: cint) AND 1 = (if bit nib k then 1 else 0)"
  by (rule bit_word_eqI) (auto simp: bit_simps intro!: gr0I)

lemma bit_extract0: "(ucast (nib :: uchar) :: cint) AND 1 = (if bit nib 0 then 1 else 0)"
  using bit_extract [of 0 nib] by simp

lemma high_nibble: "(ucast (drop_bit 4 (ucast (b :: uchar) :: cint)) :: uchar) = drop_bit 4 b"
  by (rule bit_word_eqI) (auto simp: bit_simps)

lemma low_nibble: "(ucast ((ucast (b :: uchar) :: cint) AND 0x0F) :: uchar) = b AND 0x0F"
  by (rule bit_word_eqI) (auto simp: bit_simps)

lemma list_update_7:
  assumes "m + 7 \<le> length xs"
  shows "xs[m := a, m + 1 := b, m + 2 := c, m + 3 := d, m + 4 := e, m + 5 := f, m + 6 := g]
           = take m xs @ [a, b, c, d, e, f, g] @ drop (m + 7) xs"
  using assms
  by (intro nth_equalityI)
     (auto simp: nth_list_update nth_append less_Suc_eq numeral_eq_Suc nth_Cons'
           intro!: arg_cong [where f = "nth xs"])

lemma for_size_blocks:
  fixes body :: "size_t \<Rightarrow> heap \<Rightarrow> heap option" and cw :: "nat \<Rightarrow> cint list"
  assumes step: "\<And>i t. unat i < unat n \<Longrightarrow> 7 * unat i + 7 \<le> length (t out) \<Longrightarrow>
             body i t = Some (t(out := take (7 * unat i) (t out) @ cw (unat i)
                                          @ drop (7 * unat i + 7) (t out)))"
    and len: "\<And>m. length (cw m) = 7"
    and "unat i \<le> unat n" and "7 * unat n \<le> length (t out)"
  shows "for_size i n body t =
           Some (t(out := take (7 * unat i) (t out) @ concat (map cw [unat i ..< unat n])
                            @ drop (7 * unat n) (t out)))"
  using assms(3,4)
proof (induction "unat n - unat i" arbitrary: i t)
  case 0
  then have "unat i = unat n" by simp
  moreover from this have "\<not> i < n" by (simp add: word_less_nat_alt)
  ultimately show ?case by (simp add: for_size_stop)
next
  case (Suc k)
  then have lt: "i < n" by (simp add: word_less_nat_alt)
  then have ult: "unat i < unat n" by (simp add: word_less_nat_alt)
  have s1: "unat (i + 1) = unat i + 1" by (rule unat_succ [OF lt])
  have room: "7 * unat i + 7 \<le> length (t out)" using ult Suc(4) by linarith
  define t1 where "t1 = t(out := take (7 * unat i) (t out) @ cw (unat i) @ drop (7 * unat i + 7) (t out))"
  have b: "body i t = Some t1" unfolding t1_def using ult room by (rule step [of i t])
  have l1: "length (t1 out) = length (t out)" using room by (simp add: t1_def len)
  have k: "k = unat n - unat (i + 1)" using Suc(2) s1 by simp
  have le1: "unat (i + 1) \<le> unat n" using ult s1 by simp
  have IH: "for_size (i + 1) n body t1 =
           Some (t1(out := take (7 * unat (i + 1)) (t1 out) @ concat (map cw [unat (i + 1) ..< unat n])
                            @ drop (7 * unat n) (t1 out)))"
    using Suc(1) [OF k le1] Suc(4) l1 by simp
  have tk: "take (7 * unat (i + 1)) (t1 out) = take (7 * unat i) (t out) @ cw (unat i)"
    using room by (simp add: t1_def s1 len)
  have dr: "drop (7 * unat n) (t1 out) = drop (7 * unat n) (t out)"
  proof -
    have "7 * unat i + 7 \<le> 7 * unat n" using ult by linarith
    then obtain d where d: "7 * unat n = 7 * unat i + 7 + d" using le_Suc_ex by blast
    show ?thesis using room by (simp add: t1_def d len add.commute)
  qed
  have upt: "[unat i ..< unat n] = unat i # [unat (i + 1) ..< unat n]"
    using ult s1 by (simp add: upt_conv_Cons)
  have "for_size i n body t = for_size (i + 1) n body t1"
    by (simp add: for_size_step [OF lt] b)
  also note IH
  also have "t1(out := take (7 * unat (i + 1)) (t1 out) @ concat (map cw [unat (i + 1) ..< unat n])
                            @ drop (7 * unat n) (t1 out))
      = t(out := take (7 * unat i) (t out) @ concat (map cw [unat i ..< unat n])
                            @ drop (7 * unat n) (t out))"
    unfolding tk dr upt by (simp add: t1_def)
  finally show ?case .
qed

lemma encode_spec_bits:
  "\<exists>c0 c1 c2 c3 c4 c5 c6.
     hamming_encode_nibble (spec_nibble_bits nib) (replicate 7 0) = Some [c0, c1, c2, c3, c4, c5, c6]"
  by (simp add: spec_nibble_bits_def replicate_7 hamming_encode_nibble_4)

lemma build_block:
  "wr (replicate 4 0) 0 (drop_bit 3 (ucast (nib :: uchar) :: cint) AND 1) \<bind>
     (\<lambda>b0. wr b0 1 (drop_bit 2 (ucast nib :: cint) AND 1) \<bind>
     (\<lambda>b1. wr b1 2 (drop_bit 1 (ucast nib :: cint) AND 1) \<bind>
     (\<lambda>b2. wr b2 3 ((ucast nib :: cint) AND 1) \<bind> f)))
   = f (spec_nibble_bits nib)"
proof -
  have "f [drop_bit 3 (ucast nib :: cint) AND 1, drop_bit 2 (ucast nib :: cint) AND 1,
           drop_bit 1 (ucast nib :: cint) AND 1, (ucast nib :: cint) AND 1] = f (spec_nibble_bits nib)"
    unfolding spec_nibble_bits_def using bit_extract [of 3 nib] bit_extract [of 2 nib] bit_extract [of 1 nib] bit_extract0 [of nib]
    by (simp only: list.map numeral_less_iff Num.less_num_simps simp_thms)
  then show ?thesis by (simp add: wr_def replicate_4)
qed

lemma write_7:
  fixes i :: size_t
  assumes "7 * unat i + 7 \<le> length (t out_bits)" and "7 * unat i + 7 < 2 ^ 64"
  shows "for_int 0 7
             (\<lambda>j h. do {
                v \<leftarrow> rd [c0, c1, c2, c3, c4, c5, c6] (sint j);
                heap_wr h out_bits (uint (i * 7 + scast j)) v
              })
             t
         = Some (t(out_bits := take (7 * unat i) (t out_bits) @ [c0, c1, c2, c3, c4, c5, c6]
                                 @ drop (7 * unat i + 7) (t out_bits)))"
proof -
  have idx: "uint (i * 7) = int (7 * unat i)" "uint (i * 7 + 1) = int (7 * unat i + 1)"
    "uint (i * 7 + 2) = int (7 * unat i + 2)" "uint (i * 7 + 3) = int (7 * unat i + 3)"
    "uint (i * 7 + 4) = int (7 * unat i + 4)" "uint (i * 7 + 5) = int (7 * unat i + 5)"
    "uint (i * 7 + 6) = int (7 * unat i + 6)"
    using unat_times7 [of i 0] unat_times7 [of i 1] unat_times7 [of i 2] unat_times7 [of i 3]
      unat_times7 [of i 4] unat_times7 [of i 5] unat_times7 [of i 6] assms(2)
    by simp_all
  have "int (7 * unat i + 7) \<le> int (length (t out_bits))"
    using assms(1) by (simp only: of_nat_le_iff)
  moreover have "uint i = int (unat i)" by (rule uint_nat)
  ultimately have bnd: "7 * uint i + 7 \<le> int (length (t out_bits))" by linarith
  have "for_int 0 7
             (\<lambda>j h. do {
                v \<leftarrow> rd [c0, c1, c2, c3, c4, c5, c6] (sint j);
                heap_wr h out_bits (uint (i * 7 + scast j)) v
              })
             t
     = Some (t(out_bits := (t out_bits)[7 * unat i := c0, 7 * unat i + 1 := c1, 7 * unat i + 2 := c2,
          7 * unat i + 3 := c3, 7 * unat i + 4 := c4, 7 * unat i + 5 := c5, 7 * unat i + 6 := c6]))"
    using bnd by (simp add: unroll heap_wr_def idx nat_add_distrib nat_mult_distrib)
  then show ?thesis using list_update_7 [OF assms(1)] by simp
qed

lemma length_concat_blocks:
  assumes "\<And>m. length (f m) = w"
  shows "length (concat (map f xs)) = w * length xs"
  using assms by (induction xs) simp_all

lemma concat_slice:
  fixes f :: "nat \<Rightarrow> 'a list"
  assumes len: "\<And>m. length (f m) = w" and "m < K"
  shows "take w (drop (w * m) (concat (map f [0..<K]) @ rest)) = f m"
proof -
  from assms(2) obtain d where "K = Suc (m + d)" by (auto dest: less_imp_Suc_add)
  then have K: "K = m + Suc d" by simp
  have "[0..<m + Suc d] = [0..<m] @ [m..<m + Suc d]" by (rule upt_add_eq_append) simp
  moreover have "[m..<m + Suc d] = m # [Suc m..<m + Suc d]" by (rule upt_conv_Cons) simp
  ultimately have split: "[0..<K] = [0..<m] @ m # [Suc m..<K]" by (simp only: K)
  have l: "length (concat (map f [0..<m])) = w * m"
    using length_concat_blocks [of f w "[0..<m]"] len by simp
  show ?thesis
    unfolding split by (simp add: l len)
qed

lemma encode_generic_body:
  fixes i :: size_t and data :: "uchar list"
  assumes "unat i < 2 * length data"
    and "7 * unat i + 7 \<le> length (t out_bits)" and "7 * unat i + 7 < 2 ^ 64"
    and enc: "hamming_encode_nibble (spec_nibble_bits (spec_nibble data (unat i))) (replicate 7 0) = Some c"
  shows "do {
           byte \<leftarrow> rd data (uint (i div 2));
           let nibble = (if i mod 2 = 0
                         then (ucast (drop_bit 4 (ucast byte :: cint)) :: uchar)
                         else ucast ((ucast byte :: cint) AND 0x0F));
           b0 \<leftarrow> wr (replicate 4 0) 0 (drop_bit 3 (ucast nibble :: cint) AND 1);
           b1 \<leftarrow> wr b0 1 (drop_bit 2 (ucast nibble :: cint) AND 1);
           b2 \<leftarrow> wr b1 2 (drop_bit 1 (ucast nibble :: cint) AND 1);
           block \<leftarrow> wr b2 3 ((ucast nibble :: cint) AND 1);
           encoded \<leftarrow> hamming_encode_nibble block (replicate 7 0);
           for_int 0 7
             (\<lambda>j h. do {
                v \<leftarrow> rd encoded (sint j);
                heap_wr h out_bits (uint (i * 7 + scast j)) v
              })
             t
         } = Some (t(out_bits := take (7 * unat i) (t out_bits) @ c @ drop (7 * unat i + 7) (t out_bits)))"
proof -
  have d2: "unat (i div 2) = unat i div 2" by (simp add: unat_div)
  then have "uint (i div 2) = int (unat i div 2)" by (simp only: uint_nat)
  moreover have "unat i div 2 < length data" using assms(1) by linarith
  ultimately have rdb: "rd data (uint (i div 2)) = Some (data ! (unat i div 2))"
    by (simp add: rd_def)
  have "unat (i mod 2) = unat i mod 2" by (simp add: unat_mod)
  then have par: "(i mod 2 = 0) = even (unat i)"
    by (metis even_iff_mod_2_eq_zero unat_eq_zero)
  have nib: "(if i mod 2 = 0
                         then (ucast (drop_bit 4 (ucast (data ! (unat i div 2)) :: cint)) :: uchar)
                         else ucast ((ucast (data ! (unat i div 2)) :: cint) AND 0x0F))
       = spec_nibble data (unat i)"
    unfolding par spec_nibble_def high_nibble low_nibble by simp
  obtain c0 c1 c2 c3 c4 c5 c6 where c: "c = [c0, c1, c2, c3, c4, c5, c6]"
    using encode_spec_bits [of "spec_nibble data (unat i)"] enc by auto
  show ?thesis
    unfolding rdb Let_def
    by (simp only: Option.bind.bind_lunit nib build_block enc c write_7 [of i t out_bits, OF assms(2,3)])
qed

text \<open>
  Claim C8. For a byte buffer of \<open>N\<close> bytes (\<open>N * 2 * 7\<close> representable in \<^verbatim>\<open>size_t\<close>) and an
  output array with room for \<open>N * 2 * 7\<close> elements, \<^verbatim>\<open>hamming_encode_generic\<close> returns and
  writes exactly the first \<open>N * 2 * 7\<close> elements of the output: for each byte index \<open>k\<close>, the
  seven elements at offset \<open>7 * (2 * k)\<close> are the nibble encoder's codeword for the high four
  bits of byte \<open>k\<close> (\<^verbatim>\<open>byte >> 4\<close>), those at offset \<open>7 * (2 * k + 1)\<close> the codeword for its low
  four bits (\<^verbatim>\<open>byte & 0x0F\<close>), the bits of each nibble taken most significant first.
\<close>

theorem encode_generic_framing:
  fixes data :: "uchar list" and data_size :: size_t
  assumes "length data = unat data_size" and "14 * length data < 2 ^ 64"
    and "14 * length data \<le> length (h out_bits)"
  shows "\<exists>h'. hamming_encode_generic h data data_size out_bits = Some h' \<and>
           length (h' out_bits) = length (h out_bits) \<and>
           drop (14 * length data) (h' out_bits) = drop (14 * length data) (h out_bits) \<and>
           (\<forall>k < length data.
              hamming_encode_nibble (spec_nibble_bits (drop_bit 4 (data ! k))) (replicate 7 0)
                = Some (take 7 (drop (7 * (2 * k)) (h' out_bits))) \<and>
              hamming_encode_nibble (spec_nibble_bits (data ! k AND 0x0F)) (replicate 7 0)
                = Some (take 7 (drop (7 * (2 * k + 1)) (h' out_bits))))"
proof -
  define n where "n = data_size * 2"
  define cw where "cw m = the (hamming_encode_nibble (spec_nibble_bits (spec_nibble data m)) (replicate 7 0))" for m
  have enc: "hamming_encode_nibble (spec_nibble_bits (spec_nibble data m)) (replicate 7 0) = Some (cw m)" for m
    using encode_spec_bits [of "spec_nibble data m"] by (auto simp: cw_def)
  have len: "length (cw m) = 7" for m
    using encode_spec_bits [of "spec_nibble data m"] enc [of m] by auto
  have n: "unat n = 2 * length data"
    unfolding n_def using assms(1,2) by (simp add: unat_twice)
  define body where "body = (\<lambda>(i :: size_t) (h :: heap). do {
           byte \<leftarrow> rd data (uint (i div 2));
           let nibble = (if i mod 2 = 0
                         then (ucast (drop_bit 4 (ucast byte :: cint)) :: uchar)
                         else ucast ((ucast byte :: cint) AND 0x0F));
           b0 \<leftarrow> wr (replicate 4 0) 0 (drop_bit 3 (ucast nibble :: cint) AND 1);
           b1 \<leftarrow> wr b0 1 (drop_bit 2 (ucast nibble :: cint) AND 1);
           b2 \<leftarrow> wr b1 2 (drop_bit 1 (ucast nibble :: cint) AND 1);
           block \<leftarrow> wr b2 3 ((ucast nibble :: cint) AND 1);
           encoded \<leftarrow> hamming_encode_nibble block (replicate 7 0);
           for_int 0 7
             (\<lambda>j h. do {
                v \<leftarrow> rd encoded (sint j);
                heap_wr h out_bits (uint (i * 7 + scast j)) v
              })
             h
         })"
  have run: "hamming_encode_generic h data data_size out_bits = for_size 0 n body h"
    by (simp add: hamming_encode_generic_def n_def body_def)
  have step: "body i t = Some (t(out_bits := take (7 * unat i) (t out_bits) @ cw (unat i)
                                          @ drop (7 * unat i + 7) (t out_bits)))"
    if "unat i < unat n" and "7 * unat i + 7 \<le> length (t out_bits)" for i t
  proof -
    have a: "unat i < 2 * length data" using that(1) n by simp
    have b: "7 * unat i + 7 < 2 ^ 64" using a assms(2) by linarith
    show ?thesis
      unfolding body_def using a that(2) b enc [of "unat i"] by (rule encode_generic_body [of i data t out_bits])
  qed
  have room: "7 * unat n \<le> length (h out_bits)" using n assms(3) by simp
  have "for_size 0 n body h =
           Some (h(out_bits := take (7 * unat (0 :: size_t)) (h out_bits) @ concat (map cw [unat (0 :: size_t) ..< unat n])
                            @ drop (7 * unat n) (h out_bits)))"
    using step len _ room by (rule for_size_blocks) simp_all
  then have res: "hamming_encode_generic h data data_size out_bits =
      Some (h(out_bits := concat (map cw [0 ..< 2 * length data]) @ drop (14 * length data) (h out_bits)))"
    using run n by simp
  define out where "out = concat (map cw [0 ..< 2 * length data]) @ drop (14 * length data) (h out_bits)"
  have l: "length out = length (h out_bits)"
    using assms(3) length_concat_blocks [of cw 7 "[0 ..< 2 * length data]"] len by (simp add: out_def)
  have d: "drop (14 * length data) out = drop (14 * length data) (h out_bits)"
    using length_concat_blocks [of cw 7 "[0 ..< 2 * length data]"] len by (simp add: out_def)
  have sl: "take 7 (drop (7 * m) out) = cw m" if "m < 2 * length data" for m
    unfolding out_def using len that by (rule concat_slice)
  have hi: "hamming_encode_nibble (spec_nibble_bits (drop_bit 4 (data ! k))) (replicate 7 0)
                = Some (take 7 (drop (7 * (2 * k)) out))" if "k < length data" for k
    using enc [of "2 * k"] sl [of "2 * k"] that by (simp add: spec_nibble_def)
  have lo: "hamming_encode_nibble (spec_nibble_bits (data ! k AND 0x0F)) (replicate 7 0)
                = Some (take 7 (drop (7 * (2 * k + 1)) out))" if "k < length data" for k
    using enc [of "2 * k + 1"] sl [of "2 * k + 1"] that by (simp add: spec_nibble_def)
  show ?thesis
    unfolding res using l d hi lo by (simp add: out_def [symmetric])
qed

text \<open>The byte \<open>0xB1\<close> gives the codewords of \<open>[1, 0, 1, 1]\<close> and \<open>[0, 0, 0, 1]\<close>.\<close>

lemma replicate_14: "replicate 14 x = [x, x, x, x, x, x, x, x, x, x, x, x, x, x]"
  by (simp add: numeral_eq_Suc)

lemma encode_generic_B1:
  "hamming_encode_generic ((\<lambda>_. [])(1 := replicate 14 0)) [0xB1] 1 1
     = Some ((\<lambda>_. [])(1 := [0, 1, 1, 0, 0, 1, 1, 1, 1, 0, 1, 0, 0, 1]))"
  by (simp add: hamming_encode_generic_def for_size.simps hamming_encode_nibble_4
        heap_wr_def replicate_14 replicate_4 replicate_7 unroll)

theorem encode_generic_framing_witness:
  "length [0xB1 :: uchar] = unat (1 :: size_t) \<and> 14 * length [0xB1 :: uchar] < 2 ^ 64 \<and>
   14 * length [0xB1 :: uchar] \<le> length (((\<lambda>_. [])(1 := replicate 14 (0 :: cint))) (1 :: nat)) \<and>
   hamming_encode_generic ((\<lambda>_. [])(1 := replicate 14 0)) [0xB1] 1 1
     = Some ((\<lambda>_. [])(1 := [0, 1, 1, 0, 0, 1, 1, 1, 1, 0, 1, 0, 0, 1])) \<and>
   (0 :: nat) < length [0xB1 :: uchar] \<and>
   hamming_encode_nibble (spec_nibble_bits (drop_bit 4 ([0xB1] ! 0))) (replicate 7 0)
     = Some (take 7 (drop (7 * (2 * 0)) [0, 1, 1, 0, 0, 1, 1, 1, 1, 0, 1, 0, 0, 1])) \<and>
   hamming_encode_nibble (spec_nibble_bits ([0xB1] ! 0 AND 0x0F)) (replicate 7 0)
     = Some (take 7 (drop (7 * (2 * 0 + 1)) [0, 1, 1, 0, 0, 1, 1, 1, 1, 0, 1, 0, 0, 1]))"
proof -
  have hyps: "length [0xB1 :: uchar] = unat (1 :: size_t)" "14 * length [0xB1 :: uchar] < 2 ^ 64"
    "14 * length [0xB1 :: uchar] \<le> length (((\<lambda>_. [])(1 := replicate 14 (0 :: cint))) (1 :: nat))"
    by simp_all
  from encode_generic_framing [of "[0xB1]" 1 "(\<lambda>_. [])(1 := replicate 14 0)" 1, OF hyps] obtain h' where
    run: "hamming_encode_generic ((\<lambda>_. [])(1 := replicate 14 0)) [0xB1] 1 1 = Some h'"
    and slices: "\<forall>k < length [0xB1 :: uchar].
      hamming_encode_nibble (spec_nibble_bits (drop_bit 4 ([0xB1] ! k))) (replicate 7 0)
        = Some (take 7 (drop (7 * (2 * k)) (h' 1))) \<and>
      hamming_encode_nibble (spec_nibble_bits ([0xB1] ! k AND 0x0F)) (replicate 7 0)
        = Some (take 7 (drop (7 * (2 * k + 1)) (h' 1)))"
    by blast
  from run [unfolded encode_generic_B1]
  have out: "h' 1 = [0, 1, 1, 0, 0, 1, 1, 1, 1, 0, 1, 0, 0, 1]" by auto
  have k: "(0 :: nat) < length [0xB1 :: uchar]" by simp
  from slices k have
    "hamming_encode_nibble (spec_nibble_bits (drop_bit 4 ([0xB1] ! 0))) (replicate 7 0)
        = Some (take 7 (drop (7 * (2 * 0)) (h' 1))) \<and>
      hamming_encode_nibble (spec_nibble_bits ([0xB1] ! 0 AND 0x0F)) (replicate 7 0)
        = Some (take 7 (drop (7 * (2 * 0 + 1)) (h' 1)))"
    by blast
  with hyps k show ?thesis by (simp only: out encode_generic_B1 simp_thms)
qed

section \<open>Block codec\<close>

text \<open>
  The heaps of the examples: \<open>0\<close> names the input array and \<open>1\<close> the output array; every
  other object is empty.
\<close>

lemma length14D:
  "length xs = 14 \<Longrightarrow> \<exists>a b c d e f g a' b' c' d' e' f' g'. xs = [a, b, c, d, e, f, g, a', b', c', d', e', f', g']"
  by (auto simp: length_Suc_conv eval_nat_numeral)

lemma encode_74_single:
  assumes "h input_bits = [d0, d1, d2, d3]" and "length (h out_bits) = 7"
    and "input_bits \<noteq> out_bits"
  shows "hamming_encode_74 h input_bits 4 out_bits =
           Some (h(out_bits := [(d0 XOR d1) XOR d3, (d0 XOR d2) XOR d3, d0, (d1 XOR d2) XOR d3, d1, d2, d3]))"
proof -
  obtain b0 b1 b2 b3 b4 b5 b6 where e: "h out_bits = [b0, b1, b2, b3, b4, b5, b6]"
    using length7D [OF assms(2)] by blast
  show ?thesis
    using assms(1,3) e
    by (simp add: hamming_encode_74_def encode_74_loop.simps heap_rd_def heap_wr_def
          hamming_encode_nibble_4 replicate_7 cdiv_7_4 unroll)
qed

lemma encode_74_pair:
  assumes "h input_bits = [d0, d1, d2, d3, d0', d1', d2', d3']" and "length (h out_bits) = 14"
    and "input_bits \<noteq> out_bits"
  shows "hamming_encode_74 h input_bits 8 out_bits =
           Some (h(out_bits :=
              [(d0 XOR d1) XOR d3, (d0 XOR d2) XOR d3, d0, (d1 XOR d2) XOR d3, d1, d2, d3] @
              [(d0' XOR d1') XOR d3', (d0' XOR d2') XOR d3', d0', (d1' XOR d2') XOR d3', d1', d2', d3']))"
proof -
  obtain b0 b1 b2 b3 b4 b5 b6 c0 c1 c2 c3 c4 c5 c6
    where e: "h out_bits = [b0, b1, b2, b3, b4, b5, b6, c0, c1, c2, c3, c4, c5, c6]"
    using length14D [OF assms(2)] by blast
  show ?thesis
    using assms(1,3) e
    by (simp add: hamming_encode_74_def encode_74_loop.simps heap_rd_def heap_wr_def
          hamming_encode_nibble_4 replicate_7 cdiv_7_4 unroll)
qed

text \<open>
  Block encode iterates the nibble encoder: two nibbles side by side in the input give their
  two codewords side by side in the output, and each codeword is what the block encoder
  writes for the nibble alone.
\<close>

lemma encode_74_concat:
  assumes "h input_bits = [d0, d1, d2, d3] @ [d0', d1', d2', d3']"
    and "length (h out_bits) = 14" and "input_bits \<noteq> out_bits"
    and "h1 in1 = [d0, d1, d2, d3]" and "length (h1 out1) = 7" and "in1 \<noteq> out1"
    and "h2 in2 = [d0', d1', d2', d3']" and "length (h2 out2) = 7" and "in2 \<noteq> out2"
  shows "\<exists>h' h1' h2'. hamming_encode_74 h input_bits 8 out_bits = Some h' \<and>
           hamming_encode_74 h1 in1 4 out1 = Some h1' \<and>
           hamming_encode_74 h2 in2 4 out2 = Some h2' \<and>
           h' out_bits = h1' out1 @ h2' out2"
  using encode_74_pair [of h input_bits d0 d1 d2 d3 d0' d1' d2' d3' out_bits]
    encode_74_single [OF assms(4,5,6)] encode_74_single [OF assms(7,8,9)] assms(1,2,3)
  by simp

lemma heap_wr_other: "heap_wr h p i v = Some h' \<Longrightarrow> q \<noteq> p \<Longrightarrow> h' q = h q"
  by (auto simp: heap_wr_def split: bind_splits)

text \<open>
  One iteration of the loop of \<^verbatim>\<open>hamming_decode_74\<close> writes to \<^verbatim>\<open>decoded_bits\<close> only.
\<close>

lemma decode_74_body_frame:
  assumes "(do {
          encoded \<leftarrow> for_int 0 7
                       (\<lambda>ja encoded. do {
                          v \<leftarrow> heap_rd t in_bits (sint (j * 7 + ja));
                          wr encoded (sint ja) v
                        })
                       (replicate 7 0);
          (encoded', block) \<leftarrow> hamming_decode_nibble encoded (replicate 4 0);
          v0 \<leftarrow> rd block 0;
          h0 \<leftarrow> heap_wr t decoded_bits (sint (j * 4 + 0)) v0;
          v1 \<leftarrow> rd block 1;
          h1 \<leftarrow> heap_wr h0 decoded_bits (sint (j * 4 + 1)) v1;
          v2 \<leftarrow> rd block 2;
          h2 \<leftarrow> heap_wr h1 decoded_bits (sint (j * 4 + 2)) v2;
          v3 \<leftarrow> rd block 3;
          heap_wr h2 decoded_bits (sint (j * 4 + 3)) v3
        }) = Some t'"
    and "q \<noteq> decoded_bits"
  shows "t' q = t q"
proof -
  from assms(1) obtain h0 h1 h2 v0 v1 v2 v3 i0 i1 i2 i3 where
    "heap_wr t decoded_bits i0 v0 = Some h0" "heap_wr h0 decoded_bits i1 v1 = Some h1"
    "heap_wr h1 decoded_bits i2 v2 = Some h2" "heap_wr h2 decoded_bits i3 v3 = Some t'"
    by (auto split: bind_splits prod.splits)
  then show ?thesis
    using assms(2) by (auto dest!: heap_wr_other [where q = q])
qed

lemma list_update_4:
  assumes "m + 4 \<le> length xs"
  shows "xs[m := a, m + 1 := b, m + 2 := c, m + 3 := d]
           = take m xs @ [a, b, c, d] @ drop (m + 4) xs"
  using assms
  by (intro nth_equalityI)
     (auto simp: nth_list_update nth_append less_Suc_eq numeral_eq_Suc nth_Cons'
           intro!: arg_cong [where f = "nth xs"])

lemma take_7_drop:
  assumes "m + 7 \<le> length xs"
  shows "[xs ! m, xs ! (m + 1), xs ! (m + 2), xs ! (m + 3), xs ! (m + 4), xs ! (m + 5), xs ! (m + 6)]
           = take 7 (drop m xs)"
  using assms
  by (intro nth_equalityI) (auto simp: less_Suc_eq numeral_eq_Suc nth_Cons')

lemma sint_affine:
  fixes i :: cint
  assumes "0 \<le> sint i" and "c * nat (sint i) + k < 2 ^ 31"
  shows "sint (i * of_nat c + of_nat k) = int (c * nat (sint i) + k)"
proof -
  have "i = of_nat (nat (sint i))" using assms(1) by simp
  then have "i * of_nat c + of_nat k = (of_nat (c * nat (sint i) + k) :: cint)"
    by (metis (no_types) mult.commute of_nat_add of_nat_mult)
  then show ?thesis using sint_of_nat_small [OF assms(2)] by (simp only:)
qed

lemma copy_group:
  fixes i :: cint
  assumes "0 \<le> sint i" and "7 * nat (sint i) + 7 \<le> length (t in_bits)"
    and "7 * nat (sint i) + 7 < 2 ^ 31"
  shows "for_int 0 7
           (\<lambda>j encoded. do {
              v \<leftarrow> heap_rd t in_bits (sint (i * 7 + j));
              wr encoded (sint j) v
            })
           (replicate 7 0)
         = Some (take 7 (drop (7 * nat (sint i)) (t in_bits)))"
proof -
  define u where "u = nat (sint i)"
  have idx: "sint (i * 7) = int (7 * u)" "sint (i * 7 + 1) = int (7 * u + 1)"
    "sint (i * 7 + 2) = int (7 * u + 2)" "sint (i * 7 + 3) = int (7 * u + 3)"
    "sint (i * 7 + 4) = int (7 * u + 4)" "sint (i * 7 + 5) = int (7 * u + 5)"
    "sint (i * 7 + 6) = int (7 * u + 6)"
    using sint_affine [OF assms(1), of 7 0] sint_affine [OF assms(1), of 7 1]
      sint_affine [OF assms(1), of 7 2] sint_affine [OF assms(1), of 7 3]
      sint_affine [OF assms(1), of 7 4] sint_affine [OF assms(1), of 7 5]
      sint_affine [OF assms(1), of 7 6] assms(3)
    by (simp_all add: u_def)
  have room: "7 * u + 7 \<le> length (t in_bits)" using assms(2) by (simp add: u_def)
  have "for_int 0 7
           (\<lambda>j encoded. do {
              v \<leftarrow> heap_rd t in_bits (sint (i * 7 + j));
              wr encoded (sint j) v
            })
           (replicate 7 0)
     = Some [t in_bits ! (7 * u), t in_bits ! (7 * u + 1), t in_bits ! (7 * u + 2),
             t in_bits ! (7 * u + 3), t in_bits ! (7 * u + 4), t in_bits ! (7 * u + 5),
             t in_bits ! (7 * u + 6)]"
    using room by (simp add: unroll heap_rd_def idx replicate_7 nat_add_distrib nat_mult_distrib)
  then show ?thesis using take_7_drop [OF room] by (simp add: u_def)
qed

lemma xor_bit: "a \<in> {0, 1} \<Longrightarrow> b \<in> {0, 1} \<Longrightarrow> a XOR b \<in> {0, 1 :: cint}"
  by auto

lemma decode_nibble_bits:
  assumes "length e = 7" and "set e \<subseteq> {0, 1}"
  shows "\<exists>e' d0 d1 d2 d3. hamming_decode_nibble e (replicate 4 0) = Some (e', [d0, d1, d2, d3])"
proof -
  obtain e0 e1 e2 e3 e4 e5 e6 where e: "e = [e0, e1, e2, e3, e4, e5, e6]"
    using length7D [OF assms(1)] by blast
  with assms(2) have b: "e0 \<in> {0, 1}" "e1 \<in> {0, 1}" "e2 \<in> {0, 1}" "e3 \<in> {0, 1}"
    "e4 \<in> {0, 1}" "e5 \<in> {0, 1}" "e6 \<in> {0, 1}"
    by auto
  define c0 where "c0 = ((e0 XOR e2) XOR e4) XOR e6"
  define c1 where "c1 = ((e1 XOR e2) XOR e5) XOR e6"
  define c2 where "c2 = ((e3 XOR e4) XOR e5) XOR e6"
  have c: "c0 \<in> {0, 1}" "c1 \<in> {0, 1}" "c2 \<in> {0, 1}"
    unfolding c0_def c1_def c2_def by (intro xor_bit b)+
  have syn: "calculate_syndrome 7 e = do {
     s0 \<leftarrow> shl c0 0;
     s1 \<leftarrow> shl c1 1;
     s2 \<leftarrow> shl c2 2;
     Some ((s0 OR s1) OR s2)
   }"
    unfolding e c0_def c1_def c2_def by (rule calculate_syndrome_7)
  from c show ?thesis
    unfolding hamming_decode_nibble_def syn unfolding e
    by (auto simp: rd_def wr_def shl_eval replicate_4)
qed

lemma write_4:
  fixes i :: cint
  assumes "0 \<le> sint i" and "4 * nat (sint i) + 4 \<le> length (t decoded_bits)"
    and "4 * nat (sint i) + 4 < 2 ^ 31"
  shows "do {
          v0 \<leftarrow> rd [d0, d1, d2, d3] 0;
          h0 \<leftarrow> heap_wr t decoded_bits (sint (i * 4 + 0)) v0;
          v1 \<leftarrow> rd [d0, d1, d2, d3] 1;
          h1 \<leftarrow> heap_wr h0 decoded_bits (sint (i * 4 + 1)) v1;
          v2 \<leftarrow> rd [d0, d1, d2, d3] 2;
          h2 \<leftarrow> heap_wr h1 decoded_bits (sint (i * 4 + 2)) v2;
          v3 \<leftarrow> rd [d0, d1, d2, d3] 3;
          heap_wr h2 decoded_bits (sint (i * 4 + 3)) v3
        } = Some (t(decoded_bits := take (4 * nat (sint i)) (t decoded_bits) @ [d0, d1, d2, d3]
                      @ drop (4 * nat (sint i) + 4) (t decoded_bits)))"
proof -
  define u where "u = nat (sint i)"
  have idx: "sint (i * 4) = int (4 * u)" "sint (i * 4 + 1) = int (4 * u + 1)"
    "sint (i * 4 + 2) = int (4 * u + 2)" "sint (i * 4 + 3) = int (4 * u + 3)"
    using sint_affine [OF assms(1), of 4 0] sint_affine [OF assms(1), of 4 1]
      sint_affine [OF assms(1), of 4 2] sint_affine [OF assms(1), of 4 3] assms(3)
    by (simp_all add: u_def)
  have room: "4 * u + 4 \<le> length (t decoded_bits)" using assms(2) by (simp add: u_def)
  have "do {
          v0 \<leftarrow> rd [d0, d1, d2, d3] 0;
          h0 \<leftarrow> heap_wr t decoded_bits (sint (i * 4 + 0)) v0;
          v1 \<leftarrow> rd [d0, d1, d2, d3] 1;
          h1 \<leftarrow> heap_wr h0 decoded_bits (sint (i * 4 + 1)) v1;
          v2 \<leftarrow> rd [d0, d1, d2, d3] 2;
          h2 \<leftarrow> heap_wr h1 decoded_bits (sint (i * 4 + 2)) v2;
          v3 \<leftarrow> rd [d0, d1, d2, d3] 3;
          heap_wr h2 decoded_bits (sint (i * 4 + 3)) v3
        } = Some (t(decoded_bits := (t decoded_bits)[4 * u := d0, 4 * u + 1 := d1,
                      4 * u + 2 := d2, 4 * u + 3 := d3]))"
    using room by (simp add: rd_def wr_def heap_wr_def idx nat_add_distrib nat_mult_distrib)
  then show ?thesis using list_update_4 [OF room] by (simp add: u_def)
qed

lemma for_int_blocks:
  fixes body :: "cint \<Rightarrow> heap \<Rightarrow> heap option" and blk :: "nat \<Rightarrow> cint list"
  assumes step: "\<And>i t. 0 \<le> sint i \<Longrightarrow> i <s n \<Longrightarrow> t inp = xs \<Longrightarrow>
             4 * nat (sint i) + 4 \<le> length (t out) \<Longrightarrow>
             body i t = Some (t(out := take (4 * nat (sint i)) (t out) @ blk (nat (sint i))
                                          @ drop (4 * nat (sint i) + 4) (t out)))"
    and len: "\<And>m. length (blk m) = 4"
    and ne: "inp \<noteq> out"
    and "0 \<le> sint i" and "sint i \<le> sint n" and "t inp = xs"
    and "4 * nat (sint n) \<le> length (t out)"
  shows "for_int i n body t =
           Some (t(out := take (4 * nat (sint i)) (t out)
                            @ concat (map blk [nat (sint i) ..< nat (sint n)])
                            @ drop (4 * nat (sint n)) (t out)))"
  using assms(4-7)
proof (induction "nat (sint n - sint i)" arbitrary: i t)
  case 0
  then have eq: "sint i = sint n" by simp
  then have "\<not> i <s n" by (simp add: word_sless_alt)
  then show ?case using eq by (simp add: for_int_stop)
next
  case (Suc k)
  then have lt: "i <s n" by (simp add: word_sless_alt)
  then have slt: "sint i < sint n" by (simp add: word_sless_alt)
  define u where "u = nat (sint i)"
  define N where "N = nat (sint n)"
  have uN: "u < N" using slt Suc(3) by (simp add: u_def N_def)
  have s1: "sint (i + 1) = sint i + 1" by (rule sint_succ [OF lt])
  have u1: "nat (sint (i + 1)) = u + 1" using s1 Suc(3) by (simp add: u_def)
  have room: "4 * u + 4 \<le> length (t out)" using uN Suc(6) by (simp add: N_def)
  define t1 where "t1 = t(out := take (4 * u) (t out) @ blk u @ drop (4 * u + 4) (t out))"
  have b: "body i t = Some t1"
    unfolding t1_def u_def using Suc(3) lt Suc(5) room [unfolded u_def] by (rule step [of i t])
  have l1: "length (t1 out) = length (t out)" using room by (simp add: t1_def len)
  have k: "k = nat (sint n - sint (i + 1))" using Suc(2) s1 by simp
  have nn1: "0 \<le> sint (i + 1)" using s1 Suc(3) by simp
  have le1: "sint (i + 1) \<le> sint n" using slt s1 by simp
  have inp1: "t1 inp = xs" using Suc(5) ne by (simp add: t1_def)
  have room1: "4 * nat (sint n) \<le> length (t1 out)" using Suc(6) l1 by simp
  have IH: "for_int (i + 1) n body t1 =
           Some (t1(out := take (4 * (u + 1)) (t1 out) @ concat (map blk [u + 1 ..< N])
                            @ drop (4 * N) (t1 out)))"
    using Suc(1) [OF k nn1 le1 inp1 room1] by (simp only: u1 N_def)
  have tk: "take (4 * (u + 1)) (t1 out) = take (4 * u) (t out) @ blk u"
    using room by (simp add: t1_def len)
  have dr: "drop (4 * N) (t1 out) = drop (4 * N) (t out)"
  proof -
    have "4 * u + 4 \<le> 4 * N" using uN by linarith
    then obtain d where d: "4 * N = 4 * u + 4 + d" using le_Suc_ex by blast
    show ?thesis using room by (simp add: t1_def d len add.commute)
  qed
  have upt: "[u ..< N] = u # [u + 1 ..< N]" using uN by (simp add: upt_conv_Cons)
  have "for_int i n body t = for_int (i + 1) n body t1"
    by (simp add: for_int_step [OF lt] b)
  also note IH
  also have "t1(out := take (4 * (u + 1)) (t1 out) @ concat (map blk [u + 1 ..< N])
                            @ drop (4 * N) (t1 out))
      = t(out := take (4 * u) (t out) @ concat (map blk [u ..< N]) @ drop (4 * N) (t out))"
    unfolding tk dr upt by (simp add: t1_def)
  finally show ?case by (simp only: u_def N_def)
qed

text \<open>
  What \<^verbatim>\<open>hamming_decode_74\<close> does for any \<open>total_bits \<ge> 0\<close>: it decodes
  \<open>g = total_bits div 4\<close> groups of 7 input elements into \<open>4 * g\<close> output elements, provided
  the input array holds \<open>7 * g\<close> bits and the output array has room. The count of groups is
  right only if \<open>total_bits\<close> is the number of decoded bits.
\<close>

lemma decode_74_groups:
  assumes ne: "in_bits \<noteq> decoded_bits" and nn: "0 \<le> sint total_bits"
    and g: "g = nat (sint total_bits) div 4"
    and inlen: "7 * g \<le> length (h in_bits)" and small: "7 * g < 2 ^ 31"
    and outlen: "4 * g \<le> length (h decoded_bits)"
    and bits: "set (h in_bits) \<subseteq> {0, 1}"
  shows "\<exists>h'. hamming_decode_74 h in_bits total_bits decoded_bits = Some h' \<and>
           length (h' decoded_bits) = length (h decoded_bits) \<and>
           drop (4 * g) (h' decoded_bits) = drop (4 * g) (h decoded_bits) \<and>
           (\<forall>m < g. \<exists>e'. hamming_decode_nibble (take 7 (drop (7 * m) (h in_bits))) (replicate 4 0)
                             = Some (e', take 4 (drop (4 * m) (h' decoded_bits))))"
proof -
  define xs where "xs = h in_bits"
  define n where "n = cdiv total_bits 4"
  define blk where "blk m = snd (the (hamming_decode_nibble (take 7 (drop (7 * m) xs)) (replicate 4 0)))" for m
  have gsmall: "g < 2 ^ 31" using small by linarith
  have "sint total_bits sdiv 4 = int g"
    using nn by (simp add: g signed_divide_int_def zdiv_int sgn_if)
  then have nval: "n = of_nat g" by (simp add: n_def cdiv_def)
  have sn: "sint n = int g" unfolding nval by (rule sint_of_nat_small [OF gsmall])
  have dec: "\<exists>e' d0 d1 d2 d3. hamming_decode_nibble (take 7 (drop (7 * m) xs)) (replicate 4 0)
                = Some (e', [d0, d1, d2, d3]) \<and> blk m = [d0, d1, d2, d3]" if "m < g" for m
  proof -
    have "7 * m + 7 \<le> length xs" using that inlen by (simp add: xs_def)
    then have l: "length (take 7 (drop (7 * m) xs)) = 7" by simp
    have "set (take 7 (drop (7 * m) xs)) \<subseteq> {0, 1}"
      using bits set_take_subset set_drop_subset unfolding xs_def by fast
    from decode_nibble_bits [OF l this] show ?thesis by (auto simp: blk_def)
  qed
  define blk' where "blk' m = (if m < g then blk m else replicate 4 0)" for m
  have len: "length (blk' m) = 4" for m
    using dec [of m] by (auto simp: blk'_def)
  define body where "body = (\<lambda>(i :: cint) (h :: heap). do {
          encoded \<leftarrow> for_int 0 7
                       (\<lambda>j encoded. do {
                          v \<leftarrow> heap_rd h in_bits (sint (i * 7 + j));
                          wr encoded (sint j) v
                        })
                       (replicate 7 0);
          (encoded', block) \<leftarrow> hamming_decode_nibble encoded (replicate 4 0);
          v0 \<leftarrow> rd block 0;
          h0 \<leftarrow> heap_wr h decoded_bits (sint (i * 4 + 0)) v0;
          v1 \<leftarrow> rd block 1;
          h1 \<leftarrow> heap_wr h0 decoded_bits (sint (i * 4 + 1)) v1;
          v2 \<leftarrow> rd block 2;
          h2 \<leftarrow> heap_wr h1 decoded_bits (sint (i * 4 + 2)) v2;
          v3 \<leftarrow> rd block 3;
          heap_wr h2 decoded_bits (sint (i * 4 + 3)) v3
        })"
  have run: "hamming_decode_74 h in_bits total_bits decoded_bits = for_int 0 n body h"
    by (simp add: hamming_decode_74_def n_def body_def)
  have step: "body i t = Some (t(decoded_bits := take (4 * nat (sint i)) (t decoded_bits)
                   @ blk' (nat (sint i)) @ drop (4 * nat (sint i) + 4) (t decoded_bits)))"
    if "0 \<le> sint i" and "i <s n" and "t in_bits = xs"
      and "4 * nat (sint i) + 4 \<le> length (t decoded_bits)" for i t
  proof -
    define u where "u = nat (sint i)"
    have ug: "u < g" using that(1,2) sn by (simp add: u_def word_sless_alt)
    have r7: "7 * nat (sint i) + 7 \<le> length (t in_bits)"
      using ug inlen that(3) by (simp add: u_def xs_def)
    have s7: "7 * nat (sint i) + 7 < 2 ^ 31" using ug small by (simp add: u_def)
    have s4: "4 * nat (sint i) + 4 < 2 ^ 31" using ug small by (simp add: u_def)
    from dec [OF ug] obtain e' d0 d1 d2 d3 where
      d: "hamming_decode_nibble (take 7 (drop (7 * u) xs)) (replicate 4 0) = Some (e', [d0, d1, d2, d3])"
      and b: "blk u = [d0, d1, d2, d3]"
      by blast
    have b': "blk' (nat (sint i)) = [d0, d1, d2, d3]" using ug b by (simp add: blk'_def u_def)
    show ?thesis
      unfolding body_def copy_group [of i t in_bits, OF that(1) r7 s7] that(3) b'
      using d write_4 [of i t decoded_bits d0 d1 d2 d3, OF that(1,4) s4]
      by (simp add: u_def)
  qed
  have z: "0 \<le> sint (0 :: cint)" "sint (0 :: cint) \<le> sint n" using sn by simp_all
  have room: "4 * nat (sint n) \<le> length (h decoded_bits)" using outlen sn by simp
  have "for_int 0 n body h =
           Some (h(decoded_bits := take (4 * nat (sint (0 :: cint))) (h decoded_bits)
                            @ concat (map blk' [nat (sint (0 :: cint)) ..< nat (sint n)])
                            @ drop (4 * nat (sint n)) (h decoded_bits)))"
    using step len ne z _ room by (rule for_int_blocks) (simp_all add: xs_def)
  then have res: "hamming_decode_74 h in_bits total_bits decoded_bits =
      Some (h(decoded_bits := concat (map blk' [0 ..< g]) @ drop (4 * g) (h decoded_bits)))"
    using run sn by simp
  define out where "out = concat (map blk' [0 ..< g]) @ drop (4 * g) (h decoded_bits)"
  have l: "length out = length (h decoded_bits)"
    using outlen length_concat_blocks [of blk' 4 "[0 ..< g]"] len by (simp add: out_def)
  have d: "drop (4 * g) out = drop (4 * g) (h decoded_bits)"
    using length_concat_blocks [of blk' 4 "[0 ..< g]"] len by (simp add: out_def)
  have sl: "take 4 (drop (4 * m) out) = blk' m" if "m < g" for m
    unfolding out_def using len that by (rule concat_slice)
  have grp: "\<exists>e'. hamming_decode_nibble (take 7 (drop (7 * m) (h in_bits))) (replicate 4 0)
                             = Some (e', take 4 (drop (4 * m) out))" if "m < g" for m
    using dec [OF that] sl [OF that] that by (auto simp: blk'_def xs_def)
  show ?thesis
    unfolding res using l d grp by (simp add: out_def [symmetric])
qed

text \<open>
  The loop of \<^verbatim>\<open>hamming_decode_74\<close> runs \<^verbatim>\<open>total_bits / 4\<close> times. For an input of
  \<open>k \<ge> 2\<close> groups, \<open>total_bits = 7 * k\<close> and an input array of exactly that length, iteration
  \<open>k\<close> is reached (\<open>k < 7 * k div 4\<close>) unless an earlier one fails, and its first read,
  \<^verbatim>\<open>in_bits[7 * k]\<close>, is outside the array.
\<close>

lemma sint_of_nat_times7:
  assumes "7 * k < 2 ^ 31"
  shows "sint ((of_nat k :: cint) * 7 + 0) = int (7 * k)"
proof -
  have "(of_nat k :: cint) * 7 + 0 = of_nat (7 * k)" by simp
  then show ?thesis using sint_of_nat_small [OF assms] by (simp only:)
qed

lemma decode_74_reads_past_input:
  assumes "2 \<le> k" and "7 * k < 2 ^ 31" and "length (h in_bits) = 7 * k"
    and "in_bits \<noteq> decoded_bits"
  shows "hamming_decode_74 h in_bits (of_nat (7 * k)) decoded_bits = None"
proof -
  have small: "7 * k div 4 < 2 ^ 31" "k < 2 ^ 31" using assms(2) by linarith+
  have "sint (of_nat (7 * k) :: cint) = int (7 * k)" by (rule sint_of_nat_small [OF assms(2)])
  then have "cdiv (of_nat (7 * k)) 4 = word_of_int (int (7 * k) sdiv 4)" by (simp add: cdiv_def)
  also have "int (7 * k) sdiv 4 = int (7 * k div 4)"
    by (simp add: signed_divide_int_def zdiv_int sgn_if)
  finally have n: "cdiv (of_nat (7 * k)) 4 = of_nat (7 * k div 4)" by simp
  have sn: "sint (of_nat (7 * k div 4) :: cint) = int (7 * k div 4)"
    by (rule sint_of_nat_small [OF small(1)])
  have sk: "sint (of_nat k :: cint) = int k" by (rule sint_of_nat_small [OF small(2)])
  have "k < 7 * k div 4" using assms(1) by linarith
  then have klt: "(of_nat k :: cint) <s of_nat (7 * k div 4)" by (simp add: word_sless_alt sn sk)
  have zero: "sint (0 :: cint) \<le> sint (of_nat k :: cint)" by (simp add: sk)
  show ?thesis
    unfolding hamming_decode_74_def n
  proof (rule for_int_none [where P = "\<lambda>t. length (t in_bits) = 7 * k" and j = "of_nat k"])
    show "length (h in_bits) = 7 * k" by (rule assms(3))
    show "sint (0 :: cint) \<le> sint (of_nat k :: cint)" by (rule zero)
    show "(of_nat k :: cint) <s of_nat (7 * k div 4)" by (rule klt)
  next
    fix j :: cint and t t' :: heap
    assume P: "length (t in_bits) = 7 * k"
      and body: "(do {
          encoded \<leftarrow> for_int 0 7
                       (\<lambda>ja encoded. do {
                          v \<leftarrow> heap_rd t in_bits (sint (j * 7 + ja));
                          wr encoded (sint ja) v
                        })
                       (replicate 7 0);
          (encoded', block) \<leftarrow> hamming_decode_nibble encoded (replicate 4 0);
          v0 \<leftarrow> rd block 0;
          h0 \<leftarrow> heap_wr t decoded_bits (sint (j * 4 + 0)) v0;
          v1 \<leftarrow> rd block 1;
          h1 \<leftarrow> heap_wr h0 decoded_bits (sint (j * 4 + 1)) v1;
          v2 \<leftarrow> rd block 2;
          h2 \<leftarrow> heap_wr h1 decoded_bits (sint (j * 4 + 2)) v2;
          v3 \<leftarrow> rd block 3;
          heap_wr h2 decoded_bits (sint (j * 4 + 3)) v3
        }) = Some t'"
    from decode_74_body_frame [OF body assms(4)] P show "length (t' in_bits) = 7 * k" by simp
  next
    fix t :: heap
    assume P: "length (t in_bits) = 7 * k"
    have "heap_rd t in_bits (sint ((of_nat k :: cint) * 7 + 0)) = None"
      unfolding sint_of_nat_times7 [OF assms(2)] using P by (simp add: heap_rd_def rd_def)
    then have "for_int 0 7
                       (\<lambda>ja encoded. do {
                          v \<leftarrow> heap_rd t in_bits (sint ((of_nat k :: cint) * 7 + ja));
                          wr encoded (sint ja) v
                        })
                       (replicate 7 (0 :: cint)) = None"
      by (subst for_int.simps) (simp add: word_sless_alt)
    then show "(do {
          encoded \<leftarrow> for_int 0 7
                       (\<lambda>ja encoded. do {
                          v \<leftarrow> heap_rd t in_bits (sint ((of_nat k :: cint) * 7 + ja));
                          wr encoded (sint ja) v
                        })
                       (replicate 7 0);
          (encoded', block) \<leftarrow> hamming_decode_nibble encoded (replicate 4 0);
          v0 \<leftarrow> rd block 0;
          h0 \<leftarrow> heap_wr t decoded_bits (sint ((of_nat k :: cint) * 4 + 0)) v0;
          v1 \<leftarrow> rd block 1;
          h1 \<leftarrow> heap_wr h0 decoded_bits (sint ((of_nat k :: cint) * 4 + 1)) v1;
          v2 \<leftarrow> rd block 2;
          h2 \<leftarrow> heap_wr h1 decoded_bits (sint ((of_nat k :: cint) * 4 + 2)) v2;
          v3 \<leftarrow> rd block 3;
          heap_wr h2 decoded_bits (sint ((of_nat k :: cint) * 4 + 3)) v3
        }) = None"
      by (simp only: Option.bind.bind_lzero)
  qed
qed

text \<open>
  Claim C1 fails on the code: the loop of \<^verbatim>\<open>hamming_decode_74\<close> runs \<^verbatim>\<open>total_bits / 4\<close>
  times, not \<^verbatim>\<open>total_bits / 7\<close> times. With \<open>total_bits = 14\<close>, an input array of 14
  elements (two codewords of the nibble \<open>[1, 0, 1, 1]\<close>) and an output array of 8 elements,
  the third iteration reads \<^verbatim>\<open>in_bits[14]\<close>, outside the input. Given 21 input elements
  and 12 output elements, the same call decodes three groups and writes 12 elements.
\<close>

theorem decode_74_fourteen_bits_three_groups:
  "hamming_decode_74
     ((\<lambda>_. [])(0 := [0, 1, 1, 0, 0, 1, 1, 0, 1, 1, 0, 0, 1, 1],
                1 := [0, 0, 0, 0, 0, 0, 0, 0])) 0 14 1
     = None \<and>
   hamming_decode_74
     ((\<lambda>_. [])(0 := [0, 1, 1, 0, 0, 1, 1, 0, 1, 1, 0, 0, 1, 1, 1, 1, 1, 1, 1, 1, 1],
                1 := [0, 0, 0, 0, 0, 0, 0, 0, 0, 0, 0, 0])) 0 14 1
     = Some ((\<lambda>_. [])(0 := [0, 1, 1, 0, 0, 1, 1, 0, 1, 1, 0, 0, 1, 1, 1, 1, 1, 1, 1, 1, 1],
                       1 := [1, 0, 1, 1, 1, 0, 1, 1, 1, 1, 1, 1]))"
  by (simp add: hamming_decode_74_def cdiv_7_4 unroll_heap)

text \<open>
  Claim C9 holds for block encode (\<open>encode_74_concat\<close>) and fails on the code for block
  decode, by the loop bound \<^verbatim>\<open>total_bits / 4\<close> of claim C1: each of the codewords of
  \<open>[1, 0, 1, 1]\<close> and \<open>[0, 0, 0, 1]\<close> is decoded alone (\<open>total_bits = 7\<close>, one iteration), but
  on their concatenation (\<open>total_bits = 14\<close>) the third iteration reads outside the input.
\<close>

theorem decode_74_concat_reads_past_input:
  "hamming_decode_74 ((\<lambda>_. [])(0 := [0, 1, 1, 0, 0, 1, 1], 1 := [0, 0, 0, 0])) 0 7 1
     = Some ((\<lambda>_. [])(0 := [0, 1, 1, 0, 0, 1, 1], 1 := [1, 0, 1, 1])) \<and>
   hamming_decode_74 ((\<lambda>_. [])(0 := [1, 1, 0, 1, 0, 0, 1], 1 := [0, 0, 0, 0])) 0 7 1
     = Some ((\<lambda>_. [])(0 := [1, 1, 0, 1, 0, 0, 1], 1 := [0, 0, 0, 1])) \<and>
   hamming_decode_74
     ((\<lambda>_. [])(0 := [0, 1, 1, 0, 0, 1, 1] @ [1, 1, 0, 1, 0, 0, 1],
                1 := [0, 0, 0, 0, 0, 0, 0, 0])) 0 14 1
     = None"
  by (simp add: hamming_decode_74_def cdiv_7_4 unroll_heap)

text \<open>
  Claim C10. A call of \<^verbatim>\<open>hamming_decode_74\<close> that returns leaves the input array as it
  was: the nibble decoder flips bits only in the local copy \<^verbatim>\<open>encoded\<close>, and the only
  writes to the heap go to \<^verbatim>\<open>decoded_bits\<close>. The output array is an object other than
  the input array.
\<close>

theorem decode_74_frame:
  assumes "hamming_decode_74 h in_bits total_bits decoded_bits = Some h'"
    and "in_bits \<noteq> decoded_bits"
  shows "h' in_bits = h in_bits"
  using assms(1) unfolding hamming_decode_74_def
proof (rule for_int_invariant [where P = "\<lambda>t. t in_bits = h in_bits"])
  show "h in_bits = h in_bits" by simp
next
  fix j :: cint and t t' :: heap
  assume "t in_bits = h in_bits"
    and "(do {
          encoded \<leftarrow> for_int 0 7
                       (\<lambda>ja encoded. do {
                          v \<leftarrow> heap_rd t in_bits (sint (j * 7 + ja));
                          wr encoded (sint ja) v
                        })
                       (replicate 7 0);
          (encoded', block) \<leftarrow> hamming_decode_nibble encoded (replicate 4 0);
          v0 \<leftarrow> rd block 0;
          h0 \<leftarrow> heap_wr t decoded_bits (sint (j * 4 + 0)) v0;
          v1 \<leftarrow> rd block 1;
          h1 \<leftarrow> heap_wr h0 decoded_bits (sint (j * 4 + 1)) v1;
          v2 \<leftarrow> rd block 2;
          h2 \<leftarrow> heap_wr h1 decoded_bits (sint (j * 4 + 2)) v2;
          v3 \<leftarrow> rd block 3;
          heap_wr h2 decoded_bits (sint (j * 4 + 3)) v3
        }) = Some t'"
  then show "t' in_bits = h in_bits"
    using decode_74_body_frame [of t in_bits j decoded_bits t' in_bits] assms(2) by simp
qed

text \<open>
  The input array holds the codeword of \<open>[1, 0, 1, 1]\<close> with the bit at index 4 flipped. The
  nibble decoder corrects its argument, the local copy; the array \<open>0\<close> of the heap keeps the
  flipped bit.
\<close>

theorem decode_74_frame_witness:
  "hamming_decode_74 ((\<lambda>_. [])(0 := [0, 1, 1, 0, 1, 1, 1], 1 := [0, 0, 0, 0])) 0 7 1
     = Some ((\<lambda>_. [])(0 := [0, 1, 1, 0, 1, 1, 1], 1 := [1, 0, 1, 1])) \<and>
   (0 :: nat) \<noteq> 1 \<and>
   ((\<lambda>_. [])(0 := [0, 1, 1, 0, 1, 1, 1], 1 := [1, 0, 1, 1 :: cint])) (0 :: nat)
     = ((\<lambda>_. [])(0 := [0, 1, 1, 0, 1, 1, 1], 1 := [0, 0, 0, 0])) (0 :: nat) \<and>
   hamming_decode_nibble [0, 1, 1, 0, 1, 1, 1] [0, 0, 0, 0]
     = Some ([0, 1, 1, 0, 0, 1, 1], [1, 0, 1, 1])"
proof -
  have run: "hamming_decode_74 ((\<lambda>_. [])(0 := [0, 1, 1, 0, 1, 1, 1], 1 := [0, 0, 0, 0])) 0 7 1
     = Some ((\<lambda>_. [])(0 := [0, 1, 1, 0, 1, 1, 1], 1 := [1, 0, 1, 1]))"
    by (simp add: hamming_decode_74_def cdiv_7_4 unroll_heap)
  have ne: "(0 :: nat) \<noteq> 1" by simp
  have local: "hamming_decode_nibble [0, 1, 1, 0, 1, 1, 1] [0, 0, 0, 0]
     = Some ([0, 1, 1, 0, 0, 1, 1], [1, 0, 1, 1])"
    by (simp add: unroll_heap)
  show ?thesis
    using run ne local decode_74_frame [OF run ne] by simp
qed

end
